theory Spec2Isabelle
  imports Complex_Main "HOL-Library.Multiset"
begin

section \<open>Alignement and disorder (pygamma/alignement.py)\<close>

text \<open>
  The module computes the disorder of a unitary alignement (one slot per annotator, a unit
  or \<open>None\<close>), checks that a set of unitary alignements partitions the units of a continuum,
  and searches the best alignement with an integer linear program.

  Numbers: the source computes with Python and numpy floats. The first model computes with
  exact reals and adds the one value the source's divisions can produce beside a number,
  \<open>nan\<close>; it serves the properties that rounding does not decide. The disorder of a unitary
  alignement is modelled a second time with every addition and the division rounded to the
  nearest double, for the properties that depend on rounding.
\<close>

subsection \<open>Values and errors\<close>

datatype ('a, 'u) error =
    NotInSet 'a 'u       \<comment> \<open>\<open>SetPartitionError('{} {} not in the set of unitary alignements')\<close>\<close>
  | AssignedTwice 'a 'u  \<comment> \<open>\<open>SetPartitionError('{} {} assigned twice')\<close>\<close>
  | AssertionError       \<comment> \<open>a failed \<open>assert\<close>\<close>
  | ZeroDivisionError    \<comment> \<open>Python's \<open>float / 0\<close>\<close>
  | TypeError            \<comment> \<open>\<open>None > 0.9\<close>\<close>
  | ValueError           \<comment> \<open>\<open>cp.Variable(shape=0, boolean=True)\<close>: invalid dimensions\<close>

datatype pyfloat = Val real | NaN

text \<open>A slot of an n-tuple: the couple \<open>[annotator, unit]\<close>, the unit possibly \<open>None\<close>.\<close>

type_synonym ('a, 'u) slot = "'a \<times> 'u option"

subsection \<open>The two collaborators\<close>

text \<open>
  Modelled from the spec: the class \<open>Continuum\<close> (pygamma/continuum.py) lives in another
  module. The timeline "holds, per annotator, an ordered set of units" and "exposes
  the number of annotators, iteration over annotators, and per-annotator iteration over
  units"; \<open>label c a u\<close> is the annotation payload \<open>continuum[a][u]\<close>.
\<close>

record ('a, 'u, 'p) continuum =
  iterannotators :: "'a list"
  itersegments :: "'a \<Rightarrow> 'u list"
  label :: "'a \<Rightarrow> 'u \<Rightarrow> 'p"

definition len_continuum :: "('a, 'u, 'p) continuum \<Rightarrow> nat" where
  "len_continuum c = length (iterannotators c)"

definition num_units :: "('a, 'u, 'p) continuum \<Rightarrow> nat" where
  "num_units c = sum_list (map (\<lambda>a. length (itersegments c a)) (iterannotators c))"

text \<open>
  Modelled from the spec: the class \<open>AbstractDissimilarity\<close> (pygamma/dissimilarity.py)
  lives in another module. The distance function, "given two units belonging to
  different annotators (plus their annotation payloads), returns a non-negative real
  dissimilarity" (\<open>dvalue\<close>, the source's \<open>combined_dissimilarity[(u, v), (pu, pv)]\<close>) and
  "exposes a constant GAP_COST" (the source's \<open>DELTA_EMPTY\<close>).
\<close>

record ('u, 'p) dissimilarity =
  DELTA_EMPTY :: real
  dvalue :: "'u \<times> 'u \<Rightarrow> 'p \<times> 'p \<Rightarrow> real"

text \<open>\<open>scipy.special.binom\<close> on natural numbers, as a float.\<close>

definition binom :: "nat \<Rightarrow> nat \<Rightarrow> real" where
  "binom n k = real (n choose k)"

text \<open>
  The division \<open>disorder / binom(len(n_tuple), 2)\<close> divides a Python float by a numpy
  float: numpy's division never raises, and \<open>0.0 / 0.0\<close> is \<open>nan\<close>. A zero divisor meets no
  other numerator here (lemma \<open>outer_loop_no_couples\<close> below).
\<close>

definition np_truediv :: "real \<Rightarrow> real \<Rightarrow> pyfloat" where
  "np_truediv x y = (if y = 0 then NaN else Val (x / y))"

subsection \<open>UnitaryAlignement\<close>

record ('a, 'u, 'p) unitary_alignement =
  ua_continuum :: "('a, 'u, 'p) continuum"
  n_tuple :: "('a, 'u) slot list"
  ua_combined_dissimilarity :: "('u, 'p) dissimilarity"

text \<open>\<open>__init__\<close>: stores its arguments and asserts the length of the n-tuple.\<close>

definition UnitaryAlignement ::
  "('a, 'u, 'p) continuum \<Rightarrow> ('a, 'u) slot list \<Rightarrow> ('u, 'p) dissimilarity
   \<Rightarrow> ('a, 'u) error + ('a, 'u, 'p) unitary_alignement" where
  "UnitaryAlignement c t d =
     (if length t = len_continuum c
      then Inr \<lparr>ua_continuum = c, n_tuple = t, ua_combined_dissimilarity = d\<rparr>
      else Inl AssertionError)"

text \<open>The body of the two nested loops of \<open>disorder\<close>: what one couple of slots adds.\<close>

fun couple_term ::
  "('a, 'u, 'p) continuum \<Rightarrow> ('u, 'p) dissimilarity \<Rightarrow> ('a, 'u) slot \<Rightarrow> ('a, 'u) slot \<Rightarrow> real"
where
  "couple_term c d (annotator_u, None) (annotator_v, unit_v) = DELTA_EMPTY d"
| "couple_term c d (annotator_u, Some u) (annotator_v, None) = DELTA_EMPTY d"
| "couple_term c d (annotator_u, Some u) (annotator_v, Some v) =
     dvalue d (u, v) (label c annotator_u u, label c annotator_v v)"

text \<open>
  The inner loop runs over \<open>n_tuple[idx + 1:]\<close>, the outer loop over \<open>n_tuple\<close>; the state is
  the couple \<open>(disorder, num_couples)\<close>.
\<close>

fun inner_loop ::
  "('a, 'u, 'p) continuum \<Rightarrow> ('u, 'p) dissimilarity \<Rightarrow> ('a, 'u) slot \<Rightarrow> ('a, 'u) slot list
   \<Rightarrow> real \<times> nat \<Rightarrow> real \<times> nat"
where
  "inner_loop c d su [] acc = acc"
| "inner_loop c d su (sv # rest) (disorder, num_couples) =
     inner_loop c d su rest (disorder + couple_term c d su sv, num_couples + 1)"

fun outer_loop ::
  "('a, 'u, 'p) continuum \<Rightarrow> ('u, 'p) dissimilarity \<Rightarrow> ('a, 'u) slot list
   \<Rightarrow> real \<times> nat \<Rightarrow> real \<times> nat"
where
  "outer_loop c d [] acc = acc"
| "outer_loop c d (su # rest) acc = outer_loop c d rest (inner_loop c d su rest acc)"

definition UnitaryAlignement_disorder ::
  "('a, 'u, 'p) unitary_alignement \<Rightarrow> ('a, 'u) error + pyfloat" where
  "UnitaryAlignement_disorder ua =
     (case outer_loop (ua_continuum ua) (ua_combined_dissimilarity ua) (n_tuple ua) (0, 0) of
        (disorder, num_couples) \<Rightarrow>
          let disorder' = np_truediv disorder (binom (length (n_tuple ua)) 2)
          in if real num_couples = binom (length (n_tuple ua)) 2
             then Inr disorder' else Inl AssertionError)"

subsection \<open>Alignement\<close>

record ('a, 'u, 'p) alignement =
  al_continuum :: "('a, 'u, 'p) continuum"
  set_unitary_alignments :: "('a, 'u, 'p) unitary_alignement list"
  al_combined_dissimilarity :: "('u, 'p) dissimilarity"

text \<open>
  The set partition tests. The innermost loop counts in \<open>found\<close> the unitary alignements
  whose n-tuple holds the couple \<open>[annotator, unit]\<close>.
\<close>

fun count_found ::
  "'a \<Rightarrow> 'u \<Rightarrow> ('a, 'u, 'p) unitary_alignement list \<Rightarrow> nat \<Rightarrow> nat" where
  "count_found annotator unit [] found = found"
| "count_found annotator unit (unitary_alignement # rest) found =
     count_found annotator unit rest
       (if (annotator, Some unit) \<in> set (n_tuple unitary_alignement) then found + 1 else found)"

fun check_units ::
  "'a \<Rightarrow> 'u list \<Rightarrow> ('a, 'u, 'p) unitary_alignement list \<Rightarrow> ('a, 'u) error + unit" where
  "check_units annotator [] uas = Inr ()"
| "check_units annotator (unit # rest) uas =
     (let found = count_found annotator unit uas 0
      in if found = 0 then Inl (NotInSet annotator unit)
         else if found > 1 then Inl (AssignedTwice annotator unit)
         else check_units annotator rest uas)"

fun check_annotators ::
  "('a, 'u, 'p) continuum \<Rightarrow> 'a list \<Rightarrow> ('a, 'u, 'p) unitary_alignement list
   \<Rightarrow> ('a, 'u) error + unit" where
  "check_annotators c [] uas = Inr ()"
| "check_annotators c (annotator # rest) uas =
     (case check_units annotator (itersegments c annotator) uas of
        Inl e \<Rightarrow> Inl e
      | Inr _ \<Rightarrow> check_annotators c rest uas)"

definition set_partition_tests ::
  "('a, 'u, 'p) continuum \<Rightarrow> ('a, 'u, 'p) unitary_alignement list \<Rightarrow> ('a, 'u) error + unit"
where
  "set_partition_tests c uas = check_annotators c (iterannotators c) uas"

text \<open>\<open>Alignement.__init__\<close>.\<close>

definition Alignement ::
  "('a, 'u, 'p) continuum \<Rightarrow> ('a, 'u, 'p) unitary_alignement list \<Rightarrow> ('u, 'p) dissimilarity
   \<Rightarrow> ('a, 'u) error + ('a, 'u, 'p) alignement" where
  "Alignement c uas d =
     (case set_partition_tests c uas of
        Inl e \<Rightarrow> Inl e
      | Inr _ \<Rightarrow>
          Inr \<lparr>al_continuum = c, set_unitary_alignments = uas, al_combined_dissimilarity = d\<rparr>)"

definition num_alignements :: "('a, 'u, 'p) alignement \<Rightarrow> nat" where
  "num_alignements al = length (set_unitary_alignments al)"

text \<open>Float addition: \<open>nan\<close> is absorbing.\<close>

fun pyadd :: "pyfloat \<Rightarrow> pyfloat \<Rightarrow> pyfloat" where
  "pyadd (Val x) (Val y) = Val (x + y)"
| "pyadd _ _ = NaN"

text \<open>The loop \<open>disorder += unitary_alignement.disorder\<close>.\<close>

fun sum_disorders ::
  "('a, 'u, 'p) unitary_alignement list \<Rightarrow> pyfloat \<Rightarrow> ('a, 'u) error + pyfloat" where
  "sum_disorders [] disorder = Inr disorder"
| "sum_disorders (unitary_alignement # rest) disorder =
     (case UnitaryAlignement_disorder unitary_alignement of
        Inl e \<Rightarrow> Inl e
      | Inr x \<Rightarrow> sum_disorders rest (pyadd disorder x))"

text \<open>
  The division \<open>disorder / self.num_alignements\<close> by a Python \<open>int\<close>. The divisor is zero
  only when the loop has not run, and then \<open>disorder\<close> is still the Python float \<open>0.0\<close>:
  Python raises \<open>ZeroDivisionError\<close>.
\<close>

definition div_by_count :: "pyfloat \<Rightarrow> nat \<Rightarrow> ('a, 'u) error + pyfloat" where
  "div_by_count x n =
     (if n = 0 then Inl ZeroDivisionError
      else Inr (case x of Val r \<Rightarrow> Val (r / real n) | NaN \<Rightarrow> NaN))"

definition Alignement_disorder :: "('a, 'u, 'p) alignement \<Rightarrow> ('a, 'u) error + pyfloat" where
  "Alignement_disorder al =
     (case sum_disorders (set_unitary_alignments al) (Val 0) of
        Inl e \<Rightarrow> Inl e
      | Inr disorder \<Rightarrow> div_by_count disorder (num_alignements al))"

subsection \<open>BestAlignement\<close>

record ('a, 'u, 'p) best_alignement =
  ba_continuum :: "('a, 'u, 'p) continuum"
  ba_combined_dissimilarity :: "('u, 'p) dissimilarity"
  set_unitary_alignements :: "('a, 'u, 'p) unitary_alignement list"

text \<open>
  \<open>get_unitary_alignements_best\<close>, first part: every annotator's couples
  \<open>[annotator, el]\<close> for its units and \<open>None\<close>, their Cartesian product
  (\<open>itertools.product\<close>, the last component varying fastest), and the loop that keeps the
  unitary alignements whose disorder is below \<open>len(continuum) * DELTA_EMPTY\<close>.
\<close>

definition set_of_possible_segments ::
  "('a, 'u, 'p) continuum \<Rightarrow> ('a, 'u) slot list list" where
  "set_of_possible_segments c =
     map (\<lambda>annotator. map (\<lambda>el. (annotator, el)) (map Some (itersegments c annotator) @ [None]))
       (iterannotators c)"

definition set_of_possible_tuples ::
  "('a, 'u, 'p) continuum \<Rightarrow> ('a, 'u) slot list list" where
  "set_of_possible_tuples c = product_lists (set_of_possible_segments c)"

text \<open>A float compared with a number: every comparison with \<open>nan\<close> is false.\<close>

fun pyless :: "pyfloat \<Rightarrow> real \<Rightarrow> bool" where
  "pyless (Val x) y = (x < y)"
| "pyless NaN y = False"

fun prune_loop ::
  "('a, 'u, 'p) continuum \<Rightarrow> ('u, 'p) dissimilarity \<Rightarrow> ('a, 'u) slot list list
   \<Rightarrow> ('a, 'u, 'p) unitary_alignement list
   \<Rightarrow> ('a, 'u) error + ('a, 'u, 'p) unitary_alignement list" where
  "prune_loop c d [] kept = Inr kept"
| "prune_loop c d (t # ts) kept =
     (case UnitaryAlignement c t d of
        Inl e \<Rightarrow> Inl e
      | Inr unitary_alignement \<Rightarrow>
          (case UnitaryAlignement_disorder unitary_alignement of
             Inl e \<Rightarrow> Inl e
           | Inr disorder \<Rightarrow>
               prune_loop c d ts
                 (if pyless disorder (real (len_continuum c) * DELTA_EMPTY d)
                  then kept @ [unitary_alignement] else kept)))"

definition set_of_possible_unitary_alignements ::
  "('a, 'u, 'p) continuum \<Rightarrow> ('u, 'p) dissimilarity
   \<Rightarrow> ('a, 'u) error + ('a, 'u, 'p) unitary_alignement list" where
  "set_of_possible_unitary_alignements c d = prune_loop c d (set_of_possible_tuples c) []"

text \<open>The vector \<open>d\<close> of the disorders of the kept unitary alignements.\<close>

fun disorders ::
  "('a, 'u, 'p) unitary_alignement list \<Rightarrow> ('a, 'u) error + pyfloat list" where
  "disorders [] = Inr []"
| "disorders (unitary_alignement # rest) =
     (case UnitaryAlignement_disorder unitary_alignement of
        Inl e \<Rightarrow> Inl e
      | Inr x \<Rightarrow> (case disorders rest of Inl e \<Rightarrow> Inl e | Inr xs \<Rightarrow> Inr (x # xs)))"

text \<open>
  The constraints matrix \<open>A\<close>: one row per couple (annotator, unit) of the continuum, in
  the order of iteration, one column per kept unitary alignement; the entry is 1 when the
  n-tuple holds the couple.
\<close>

definition constraints_matrix ::
  "('a, 'u, 'p) continuum \<Rightarrow> ('a, 'u, 'p) unitary_alignement list \<Rightarrow> nat list list" where
  "constraints_matrix c uas =
     concat (map (\<lambda>annotator.
                map (\<lambda>unit. map (\<lambda>unitary_alignement.
                                   if (annotator, Some unit) \<in> set (n_tuple unitary_alignement)
                                   then 1 else 0) uas)
                  (itersegments c annotator))
              (iterannotators c))"

subsection \<open>The integer linear program\<close>

text \<open>
  Modelled from the spec: the solver is a library outside the repository, "treated as a
  black-box backend call". Its problem is the one the source states: a boolean vector \<open>x\<close>
  with one component per kept unitary alignement, the objective \<open>Minimize(d.T * x)\<close>, the
  constraint \<open>matmul(A, x) == 1\<close>. The model searches all boolean vectors and returns a
  feasible one of least objective, or \<open>None\<close> (the solver leaves \<open>x.value\<close> at \<open>None\<close>) when
  no vector is feasible. The component \<open>x.value > 0.9\<close> is the boolean itself.
\<close>

definition row_sum :: "nat list \<Rightarrow> bool list \<Rightarrow> nat" where
  "row_sum row x = sum_list (map (\<lambda>(a, b). if b then a else 0) (zip row x))"

definition feasible :: "nat list list \<Rightarrow> bool list \<Rightarrow> bool" where
  "feasible A x = list_all (\<lambda>row. row_sum row x = 1) A"

definition objective :: "real list \<Rightarrow> bool list \<Rightarrow> real" where
  "objective d x = sum_list (map (\<lambda>(v, b). if b then v else 0) (zip d x))"

fun numbers :: "pyfloat list \<Rightarrow> real list option" where
  "numbers [] = Some []"
| "numbers (Val r # xs) = (case numbers xs of None \<Rightarrow> None | Some rs \<Rightarrow> Some (r # rs))"
| "numbers (NaN # xs) = None"

definition solve :: "pyfloat list \<Rightarrow> nat list list \<Rightarrow> bool list option" where
  "solve d A =
     (case numbers d of
        None \<Rightarrow> None
      | Some rs \<Rightarrow>
          (case filter (feasible A) (List.n_lists (length rs) [False, True]) of
             [] \<Rightarrow> None
           | x # xs \<Rightarrow> Some (arg_min_list (objective rs) (x # xs))))"

text \<open>The last loop: the unitary alignements whose component of \<open>x\<close> is chosen.\<close>


definition chosen ::
  "('a, 'u, 'p) unitary_alignement list \<Rightarrow> bool list \<Rightarrow> ('a, 'u, 'p) unitary_alignement list"
where
  "chosen uas x = map fst (filter snd (zip uas x))"

text \<open>
  \<open>get_unitary_alignements_best\<close>, second part. The variable
  \<open>x = cp.Variable(shape=num_possible_unitary_alignements, boolean=True)\<close> is built first:
  the library refuses a dimension that is not positive with \<open>ValueError\<close> (invalid
  dimensions), so that nothing is solved when the pruning has kept no candidate. After
  \<open>prob.solve()\<close> the source compares \<open>x.value\<close> with 0.9; \<open>x.value\<close> is \<open>None\<close> when the
  program has no solution, and the comparison raises \<open>TypeError\<close>.
\<close>

definition get_unitary_alignements_best ::
  "('a, 'u, 'p) continuum \<Rightarrow> ('u, 'p) dissimilarity
   \<Rightarrow> ('a, 'u) error + ('a, 'u, 'p) unitary_alignement list" where
  "get_unitary_alignements_best c d =
     (case set_of_possible_unitary_alignements c d of
        Inl e \<Rightarrow> Inl e
      | Inr uas \<Rightarrow>
          let num_possible_unitary_alignements = length uas
          in if num_possible_unitary_alignements = 0 then Inl ValueError
             else (case disorders uas of
                     Inl e \<Rightarrow> Inl e
                   | Inr ds \<Rightarrow>
                       (case solve ds (constraints_matrix c uas) of
                          None \<Rightarrow> Inl TypeError
                        | Some x \<Rightarrow> Inr (chosen uas x))))"

text \<open>\<open>BestAlignement.__init__\<close>: the search, then the set partition tests on its result.\<close>

definition BestAlignement ::
  "('a, 'u, 'p) continuum \<Rightarrow> ('u, 'p) dissimilarity
   \<Rightarrow> ('a, 'u) error + ('a, 'u, 'p) best_alignement" where
  "BestAlignement c d =
     (case get_unitary_alignements_best c d of
        Inl e \<Rightarrow> Inl e
      | Inr uas \<Rightarrow>
          (case set_partition_tests c uas of
             Inl e \<Rightarrow> Inl e
           | Inr _ \<Rightarrow>
               Inr \<lparr>ba_continuum = c, ba_combined_dissimilarity = d,
                    set_unitary_alignements = uas\<rparr>))"


subsection \<open>The words of the specification\<close>

text \<open>
  "For every unordered pair of distinct slots (i, j) in the grouping (there are C(n,2) such
  pairs for n annotators), accumulate GAP_COST if either slot is a gap, else the
  distance-function value between the two units."
\<close>

definition slot_pairs :: "nat \<Rightarrow> (nat \<times> nat) set" where
  "slot_pairs n = {(i, j). i < j \<and> j < n}"

definition is_gap :: "('a, 'u) slot \<Rightarrow> bool" where
  "is_gap s = (snd s = None)"

definition pair_cost ::
  "('a, 'u, 'p) continuum \<Rightarrow> ('u, 'p) dissimilarity \<Rightarrow> ('a, 'u) slot \<Rightarrow> ('a, 'u) slot \<Rightarrow> real"
where
  "pair_cost c d s s' =
     (if is_gap s \<or> is_gap s' then DELTA_EMPTY d
      else dvalue d (the (snd s), the (snd s'))
             (label c (fst s) (the (snd s)), label c (fst s') (the (snd s'))))"

definition pairs_sum ::
  "('a, 'u, 'p) continuum \<Rightarrow> ('u, 'p) dissimilarity \<Rightarrow> ('a, 'u) slot list \<Rightarrow> real" where
  "pairs_sum c d t = (\<Sum>(i, j)\<in>slot_pairs (length t). pair_cost c d (t ! i) (t ! j))"

text \<open>The couples (annotator, unit) of the timeline, in the order of iteration.\<close>

definition timeline_pairs :: "('a, 'u, 'p) continuum \<Rightarrow> ('a \<times> 'u) list" where
  "timeline_pairs c =
     concat (map (\<lambda>a. map (\<lambda>u. (a, u)) (itersegments c a)) (iterannotators c))"

text \<open>The number of groupings of a collection that reference a couple.\<close>

definition ref_count :: "('a, 'u, 'p) unitary_alignement list \<Rightarrow> 'a \<times> 'u \<Rightarrow> nat" where
  "ref_count uas p = length (filter (\<lambda>ua. (fst p, Some (snd p)) \<in> set (n_tuple ua)) uas)"

text \<open>The exact-partition invariant of a collection of groupings.\<close>

definition exact_partition ::
  "('a, 'u, 'p) continuum \<Rightarrow> ('a, 'u, 'p) unitary_alignement list \<Rightarrow> bool" where
  "exact_partition c uas = list_all (\<lambda>p. ref_count uas p = 1) (timeline_pairs c)"

text \<open>The sum over the couples the two loops visit, by recursion on the n-tuple.\<close>

fun couples_sum :: "('s \<Rightarrow> 's \<Rightarrow> real) \<Rightarrow> 's list \<Rightarrow> real" where
  "couples_sum f [] = 0"
| "couples_sum f (su # rest) = (\<Sum>sv\<leftarrow>rest. f su sv) + couples_sum f rest"

text \<open>The value of the disorder of a unitary alignement, its assertion apart.\<close>

definition disorder_of :: "('a, 'u, 'p) unitary_alignement \<Rightarrow> pyfloat" where
  "disorder_of ua =
     np_truediv (pairs_sum (ua_continuum ua) (ua_combined_dissimilarity ua) (n_tuple ua))
       (binom (length (n_tuple ua)) 2)"

text \<open>The sum and the mean of a list of floats.\<close>

fun pysum :: "pyfloat list \<Rightarrow> pyfloat" where
  "pysum [] = Val 0"
| "pysum (x # xs) = pyadd x (pysum xs)"


text \<open>The object \<open>UnitaryAlignement(c, t, d)\<close> and the bound of the pruning.\<close>

definition mk_ua ::
  "('a, 'u, 'p) continuum \<Rightarrow> ('u, 'p) dissimilarity \<Rightarrow> ('a, 'u) slot list
   \<Rightarrow> ('a, 'u, 'p) unitary_alignement" where
  "mk_ua c d t = \<lparr>ua_continuum = c, n_tuple = t, ua_combined_dissimilarity = d\<rparr>"

definition bound :: "('a, 'u, 'p) continuum \<Rightarrow> ('u, 'p) dissimilarity \<Rightarrow> real" where
  "bound c d = real (len_continuum c) * DELTA_EMPTY d"

text \<open>The outcome of the set partition tests, from the first couple they reject.\<close>

definition verdict ::
  "('a, 'u, 'p) unitary_alignement list \<Rightarrow> ('a \<times> 'u) option \<Rightarrow> ('a, 'u) error + unit" where
  "verdict uas r =
     (case r of
        None \<Rightarrow> Inr ()
      | Some p \<Rightarrow>
          if ref_count uas p = 0 then Inl (NotInSet (fst p) (snd p))
          else Inl (AssignedTwice (fst p) (snd p)))"

subsection \<open>Groupings over a timeline\<close>

text \<open>
  "An ordered tuple with exactly one slot per annotator; each slot holds either a reference
  to one of that annotator's units or a gap marker": the slots an annotator may contribute,
  and the unitary alignements over a timeline and a distance function whose n-tuple is made
  of such slots, in the order of the annotators.
\<close>

definition slot_domain :: "('a, 'u, 'p) continuum \<Rightarrow> 'a \<Rightarrow> ('a, 'u) slot \<Rightarrow> bool" where
  "slot_domain c a s =
     (fst s = a \<and> (case snd s of None \<Rightarrow> True | Some u \<Rightarrow> u \<in> set (itersegments c a)))"

definition is_grouping ::
  "('a, 'u, 'p) continuum \<Rightarrow> ('u, 'p) dissimilarity \<Rightarrow> ('a, 'u, 'p) unitary_alignement \<Rightarrow> bool"
where
  "is_grouping c d g =
     (ua_continuum g = c \<and> ua_combined_dissimilarity g = d
      \<and> list_all2 (slot_domain c) (iterannotators c) (n_tuple g))"

text \<open>A grouping references a couple (annotator, unit) when its n-tuple holds it.\<close>

definition references :: "'a \<times> 'u \<Rightarrow> ('a, 'u, 'p) unitary_alignement \<Rightarrow> bool" where
  "references p ua = ((fst p, Some (snd p)) \<in> set (n_tuple ua))"

text \<open>The disorder of a unitary alignement of two slots or more, as a number.\<close>

definition cost :: "('a, 'u, 'p) unitary_alignement \<Rightarrow> real" where
  "cost ua =
     couples_sum (pair_cost (ua_continuum ua) (ua_combined_dissimilarity ua)) (n_tuple ua)
       / real (length (n_tuple ua) choose 2)"

text \<open>
  The grouping that holds one unit and gaps elsewhere, the couples a tuple references, and
  the replacement of a grouping that the pruning drops by such groupings, one for each unit
  it references.
\<close>

definition single :: "('a, 'u, 'p) continuum \<Rightarrow> 'a \<times> 'u \<Rightarrow> ('a, 'u) slot list" where
  "single c p = map (\<lambda>a. if a = fst p then (a, Some (snd p)) else (a, None)) (iterannotators c)"

definition refs :: "('a, 'u) slot list \<Rightarrow> ('a \<times> 'u) list" where
  "refs t = remdups (concat (map (\<lambda>s. case snd s of None \<Rightarrow> [] | Some u \<Rightarrow> [(fst s, u)]) t))"

definition replace ::
  "('a, 'u, 'p) continuum \<Rightarrow> ('u, 'p) dissimilarity \<Rightarrow> ('a, 'u, 'p) unitary_alignement
   \<Rightarrow> ('a, 'u, 'p) unitary_alignement list" where
  "replace c d g =
     (if pyless (disorder_of g) (bound c d) then [g]
      else map (\<lambda>p. mk_ua c d (single c p)) (refs (n_tuple g)))"

text \<open>A grouping that references some couple of the timeline.\<close>

definition covers :: "('a, 'u, 'p) continuum \<Rightarrow> ('a, 'u, 'p) unitary_alignement \<Rightarrow> bool" where
  "covers c g = (\<exists>p\<in>set (timeline_pairs c). references p g)"

subsection \<open>The disorder in doubles\<close>

text \<open>
  Rounding to the nearest double, ties to even: the significand has 53 bits, so a number
  \<open>x\<close> with \<open>2 ^ k \<le> |x| < 2 ^ (k + 1)\<close> is rounded to a multiple of \<open>2 ^ (k - 52)\<close>. The
  disorders modelled here are far from the ends of the exponent range; overflow and
  subnormal numbers are left out.
\<close>

definition round_even :: "real \<Rightarrow> int" where
  "round_even y =
     (let f = \<lfloor>y\<rfloor>; r = y - of_int f
      in if r < 1 / 2 then f else if 1 / 2 < r then f + 1 else if even f then f else f + 1)"

definition double :: "real \<Rightarrow> real" where
  "double x =
     (if x = 0 then 0
      else let e = \<lfloor>log 2 \<bar>x\<bar>\<rfloor> - 52
           in of_int (round_even (x / 2 powr of_int e)) * 2 powr of_int e)"

text \<open>
  The two loops and the division of \<open>UnitaryAlignement.disorder\<close> once more, each addition
  \<open>disorder += ...\<close> and the division \<open>disorder / binom(len(n_tuple), 2)\<close> rounded.
\<close>

fun inner_loop_double ::
  "('a, 'u, 'p) continuum \<Rightarrow> ('u, 'p) dissimilarity \<Rightarrow> ('a, 'u) slot \<Rightarrow> ('a, 'u) slot list
   \<Rightarrow> real \<times> nat \<Rightarrow> real \<times> nat"
where
  "inner_loop_double c d su [] acc = acc"
| "inner_loop_double c d su (sv # rest) (disorder, num_couples) =
     inner_loop_double c d su rest
       (double (disorder + couple_term c d su sv), num_couples + 1)"

fun outer_loop_double ::
  "('a, 'u, 'p) continuum \<Rightarrow> ('u, 'p) dissimilarity \<Rightarrow> ('a, 'u) slot list
   \<Rightarrow> real \<times> nat \<Rightarrow> real \<times> nat"
where
  "outer_loop_double c d [] acc = acc"
| "outer_loop_double c d (su # rest) acc =
     outer_loop_double c d rest (inner_loop_double c d su rest acc)"

definition np_truediv_double :: "real \<Rightarrow> real \<Rightarrow> pyfloat" where
  "np_truediv_double x y = (if y = 0 then NaN else Val (double (x / y)))"

definition UnitaryAlignement_disorder_double ::
  "('a, 'u, 'p) unitary_alignement \<Rightarrow> ('a, 'u) error + pyfloat" where
  "UnitaryAlignement_disorder_double ua =
     (case outer_loop_double (ua_continuum ua) (ua_combined_dissimilarity ua) (n_tuple ua)
             (0, 0) of
        (disorder, num_couples) \<Rightarrow>
          let disorder' = np_truediv_double disorder (binom (length (n_tuple ua)) 2)
          in if real num_couples = binom (length (n_tuple ua)) 2
             then Inr disorder' else Inl AssertionError)"

text \<open>The natural multiples of \<open>2 ^ e\<close>: their sums are exact as long as they fit 53 bits.\<close>

definition multiple_of :: "int \<Rightarrow> real \<Rightarrow> bool" where
  "multiple_of e x = (\<exists>k::nat. x = real k * 2 powr of_int e)"

subsection \<open>Small timelines\<close>

text \<open>
  Two annotators, 0 and 1, with one unit each (10 and 20); one annotator with one unit; two
  annotators without units. The payloads carry no information.
\<close>

definition two_annotators :: "(nat, nat, unit) continuum" where
  "two_annotators =
     \<lparr>iterannotators = [0, 1],
      itersegments = (\<lambda>a. if a = 0 then [10] else if a = 1 then [20] else []),
      label = (\<lambda>a u. ())\<rparr>"

definition one_annotator :: "(nat, nat, unit) continuum" where
  "one_annotator =
     \<lparr>iterannotators = [0],
      itersegments = (\<lambda>a. if a = 0 then [10] else []),
      label = (\<lambda>a u. ())\<rparr>"

definition silent_annotators :: "(nat, nat, unit) continuum" where
  "silent_annotators =
     \<lparr>iterannotators = [0, 1], itersegments = (\<lambda>a. []), label = (\<lambda>a u. ())\<rparr>"

text \<open>
  A distance of 3/2 between any two units with a gap cost of 1, and a distance of 0 with a
  gap cost of 0.
\<close>

definition far_apart :: "(nat, unit) dissimilarity" where
  "far_apart = \<lparr>DELTA_EMPTY = 1, dvalue = (\<lambda>uv pq. 3 / 2)\<rparr>"

definition free_gaps :: "(nat, unit) dissimilarity" where
  "free_gaps = \<lparr>DELTA_EMPTY = 0, dvalue = (\<lambda>uv pq. 0)\<rparr>"

text \<open>
  A timeline whose first annotator has two units, with a distance that a gap cost of 0 lets
  only one grouping undercut.
\<close>

definition lopsided :: "(nat, nat, unit) continuum" where
  "lopsided =
     \<lparr>iterannotators = [0, 1],
      itersegments = (\<lambda>a. if a = 0 then [10, 11] else if a = 1 then [20] else []),
      label = (\<lambda>a u. ())\<rparr>"

definition attract :: "(nat, unit) dissimilarity" where
  "attract = \<lparr>DELTA_EMPTY = 0, dvalue = (\<lambda>uv pq. if fst uv = 10 then - 1 else 1)\<rparr>"

text \<open>
  Three annotators with one unit each; a gap cost of 0.1 (the double nearest to it); the
  distances 0.1, 0.2 and 0.3 (the doubles nearest to them) between the units 10 and 20, 10
  and 30, 20 and 30, in either order; and the sum of the two units as their distance.
\<close>

definition three_annotators :: "(nat, nat, unit) continuum" where
  "three_annotators =
     \<lparr>iterannotators = [0, 1, 2],
      itersegments = (\<lambda>a. if a = 0 then [10] else if a = 1 then [20] else if a = 2 then [30] else []),
      label = (\<lambda>a u. ())\<rparr>"


definition uneven :: "(nat, unit) dissimilarity" where
  "uneven =
     \<lparr>DELTA_EMPTY = 1,
      dvalue = (\<lambda>uv pq. if fst uv + snd uv = 30 then 3602879701896397 / 2 ^ 55
                       else if fst uv + snd uv = 40 then 3602879701896397 / 2 ^ 54
                       else 5404319552844595 / 2 ^ 54)\<rparr>"

definition by_sum :: "(nat, unit) dissimilarity" where
  "by_sum = \<lparr>DELTA_EMPTY = 1, dvalue = (\<lambda>uv pq. real (fst uv + snd uv))\<rparr>"

text \<open>The groupings of the two units: together, and each with a gap.\<close>

definition paired :: "(nat, nat, unit) unitary_alignement" where
  "paired = mk_ua two_annotators far_apart [(0, Some 10), (1, Some 20)]"

definition left_alone :: "(nat, nat, unit) unitary_alignement" where
  "left_alone = mk_ua two_annotators far_apart [(0, Some 10), (1, None)]"

definition right_alone :: "(nat, nat, unit) unitary_alignement" where
  "right_alone = mk_ua two_annotators far_apart [(0, None), (1, Some 20)]"

definition all_gaps :: "(nat, nat, unit) unitary_alignement" where
  "all_gaps = mk_ua two_annotators far_apart [(0, None), (1, None)]"


definition split_of_two :: "(nat, nat, unit) alignement" where
  "split_of_two =
     \<lparr>al_continuum = two_annotators, set_unitary_alignments = [left_alone, right_alone],
      al_combined_dissimilarity = far_apart\<rparr>"

section \<open>The disorder of a unitary alignement\<close>

subsection \<open>The two loops\<close>

lemma couple_term_pair_cost: "couple_term c d s s' = pair_cost c d s s'"
  by (induction c d s s' rule: couple_term.induct) (simp_all add: pair_cost_def is_gap_def)

lemma inner_loop_eq:
  "inner_loop c d su rest (s, k) =
     (s + (\<Sum>sv\<leftarrow>rest. pair_cost c d su sv), k + length rest)"
  by (induction rest arbitrary: s k) (simp_all add: couple_term_pair_cost add.assoc)

lemma outer_loop_eq:
  "outer_loop c d t (s, k) = (s + couples_sum (pair_cost c d) t, k + (length t choose 2))"
proof (induction t arbitrary: s k)
  case Nil
  show ?case by simp
next
  case (Cons su rest)
  have "Suc (length rest) choose 2 = length rest + (length rest choose 2)"
    by (simp add: numeral_2_eq_2)
  then show ?case
    by (simp add: inner_loop_eq Cons.IH add.assoc)
qed

subsection \<open>The pairs of slot positions\<close>

lemma slot_pairs_image: "slot_pairs n = (\<lambda>(j, i). (i, j)) ` (SIGMA j:{..<n}. {..<j})"
  by (auto simp: slot_pairs_def image_iff)

lemma slot_pairs_inj: "inj_on (\<lambda>(j, i). (i, j)) (SIGMA j:{..<n}. {..<j::nat})"
  by (auto simp: inj_on_def)

lemma sum_slot_pairs:
  fixes g :: "nat \<Rightarrow> nat \<Rightarrow> real"
  shows "(\<Sum>(i, j)\<in>slot_pairs n. g i j) = (\<Sum>j<n. \<Sum>i<j. g i j)"
proof -
  have "(\<Sum>(i, j)\<in>slot_pairs n. g i j) = (\<Sum>(j, i)\<in>(SIGMA j:{..<n}. {..<j}). g i j)"
    unfolding slot_pairs_image
    by (subst sum.reindex [OF slot_pairs_inj]) (simp add: case_prod_unfold)
  also have "\<dots> = (\<Sum>j<n. \<Sum>i<j. g i j)"
    by (simp add: sum.Sigma)
  finally show ?thesis .
qed



lemma double_sum_Cons:
  fixes f :: "'s \<Rightarrow> 's \<Rightarrow> real"
  shows "(\<Sum>j<length (x # xs). \<Sum>i<j. f ((x # xs) ! i) ((x # xs) ! j)) =
     (\<Sum>y\<leftarrow>xs. f x y) + (\<Sum>j<length xs. \<Sum>i<j. f (xs ! i) (xs ! j))"
proof -
  let ?g = "\<lambda>j. \<Sum>i<j. f ((x # xs) ! i) ((x # xs) ! j)"
  have "(\<Sum>j<length (x # xs). ?g j) = (\<Sum>j<Suc (length xs). ?g j)"
    by simp
  also have "\<dots> = ?g 0 + (\<Sum>j<length xs. ?g (Suc j))"
    by (rule sum.lessThan_Suc_shift)
  also have "\<dots> = (\<Sum>j<length xs. ?g (Suc j))"
    by simp
  also have "\<dots> = (\<Sum>j<length xs. f x (xs ! j) + (\<Sum>i<j. f (xs ! i) (xs ! j)))"
  proof (rule sum.cong)
    fix j
    have "?g (Suc j) = (\<Sum>i<Suc j. f ((x # xs) ! i) (xs ! j))"
      by simp
    also have "\<dots> = f ((x # xs) ! 0) (xs ! j) + (\<Sum>i<j. f ((x # xs) ! Suc i) (xs ! j))"
      by (rule sum.lessThan_Suc_shift)
    finally show "?g (Suc j) = f x (xs ! j) + (\<Sum>i<j. f (xs ! i) (xs ! j))"
      by simp
  qed simp
  also have "\<dots> =
      (\<Sum>j<length xs. f x (xs ! j)) + (\<Sum>j<length xs. \<Sum>i<j. f (xs ! i) (xs ! j))"
    by (rule sum.distrib)
  also have "(\<Sum>j<length xs. f x (xs ! j)) = (\<Sum>y\<leftarrow>xs. f x y)"
    by (simp add: sum_list_sum_nth atLeast0LessThan)
  finally show ?thesis .
qed

lemma couples_sum_double_sum:
  "couples_sum f t = (\<Sum>j<length t. \<Sum>i<j. f (t ! i) (t ! j))"
proof (induction t)
  case Nil
  show ?case by simp
next
  case (Cons su rest)
  show ?case
    unfolding double_sum_Cons by (simp add: Cons.IH)
qed

lemma couples_sum_pairs_sum: "couples_sum (pair_cost c d) t = pairs_sum c d t"
  by (simp add: couples_sum_double_sum pairs_sum_def sum_slot_pairs)

lemma outer_loop_pairs_sum:
  "outer_loop c d t (0, 0) = (pairs_sum c d t, length t choose 2)"
  by (simp add: outer_loop_eq couples_sum_pairs_sum)

text \<open>The assertion \<open>num_couples == binom(len(self.n_tuple), 2)\<close> never fails.\<close>

lemma UnitaryAlignement_disorder_eq: "UnitaryAlignement_disorder ua = Inr (disorder_of ua)"
  by (simp add: UnitaryAlignement_disorder_def outer_loop_pairs_sum binom_def disorder_of_def)

lemma disorder_of_couples:
  "disorder_of ua =
     np_truediv
       (couples_sum (pair_cost (ua_continuum ua) (ua_combined_dissimilarity ua)) (n_tuple ua))
       (binom (length (n_tuple ua)) 2)"
  by (simp add: disorder_of_def couples_sum_pairs_sum)

lemma choose_2_pos: "2 \<le> n \<Longrightarrow> 0 < n choose 2"
  by simp

text \<open>With no couple of slots the accumulated disorder is the initial \<open>0.0\<close>.\<close>

lemma outer_loop_no_couples:
  assumes "binom (length t) 2 = 0"
  shows "fst (outer_loop c d t (0, 0)) = 0"
proof -
  from assms have "length t < 2"
    using choose_2_pos [of "length t"] by (simp add: binom_def not_le [symmetric])
  then have "t = [] \<or> (\<exists>s. t = [s])"
    by (cases t) (auto simp: length_Suc_conv)
  then show ?thesis by auto
qed

lemma UnitaryAlignement_Inr:
  "UnitaryAlignement c t d = Inr ua \<longleftrightarrow> length t = len_continuum c \<and> ua = mk_ua c d t"
  by (auto simp: UnitaryAlignement_def mk_ua_def)

subsection \<open>The small timelines, evaluated\<close>

lemma two_annotators_simps [simp]:
  "iterannotators two_annotators = [0, 1]"
  "itersegments two_annotators 0 = [10]"
  "itersegments two_annotators (Suc 0) = [20]"
  "len_continuum two_annotators = 2"
  by (simp_all add: two_annotators_def len_continuum_def)

lemma far_apart_simps [simp]:
  "DELTA_EMPTY far_apart = 1" "dvalue far_apart uv pq = 3 / 2"
  by (simp_all add: far_apart_def)

lemma free_gaps_simps [simp]:
  "DELTA_EMPTY free_gaps = 0" "dvalue free_gaps uv pq = 0"
  by (simp_all add: free_gaps_def)

lemma disorder_of_two_slots: "disorder_of (mk_ua c d [s, s']) = Val (pair_cost c d s s')"
  by (simp add: disorder_of_couples mk_ua_def np_truediv_def binom_def numeral_2_eq_2)


lemma n_tuple_groupings [simp]:
  "n_tuple paired = [(0, Some 10), (1, Some 20)]"
  "n_tuple left_alone = [(0, Some 10), (1, None)]"
  "n_tuple right_alone = [(0, None), (1, Some 20)]"
  "n_tuple all_gaps = [(0, None), (1, None)]"
  by (simp_all add: paired_def left_alone_def right_alone_def all_gaps_def mk_ua_def)


subsection \<open>The mean over the pairs\<close>



subsection \<open>The grouping of gaps\<close>

lemma couples_sum_all_gap:
  "\<forall>s\<in>set t. is_gap s \<Longrightarrow>
     couples_sum (pair_cost c d) t = real (length t choose 2) * DELTA_EMPTY d"
proof (induction t)
  case Nil
  show ?case by simp
next
  case (Cons su rest)
  have "(\<Sum>sv\<leftarrow>rest. pair_cost c d su sv) = (\<Sum>sv\<leftarrow>rest. DELTA_EMPTY d)"
    using Cons.prems by (simp add: pair_cost_def)
  also have "\<dots> = real (length rest) * DELTA_EMPTY d"
    by (simp add: sum_list_triv)
  finally have row: "(\<Sum>sv\<leftarrow>rest. pair_cost c d su sv) = real (length rest) * DELTA_EMPTY d" .
  have "Suc (length rest) choose 2 = length rest + (length rest choose 2)"
    by (simp add: numeral_2_eq_2)
  then show ?case
    using Cons by (simp add: row algebra_simps)
qed

text \<open>
  Without rounding, the grouping whose every slot is a gap accumulates C(n,2) * GAP_COST and
  has the disorder GAP_COST.
\<close>

lemma all_gap_disorder_exact:
  assumes "UnitaryAlignement c t d = Inr ua" and "2 \<le> len_continuum c"
    and "\<forall>s\<in>set t. is_gap s"
  shows "UnitaryAlignement_disorder ua = Inr (Val (DELTA_EMPTY d))
         \<and> fst (outer_loop c d t (0, 0)) = real (length t choose 2) * DELTA_EMPTY d"
proof -
  from assms(1) have ua: "ua = mk_ua c d t" and len: "length t = len_continuum c"
    by (simp_all add: UnitaryAlignement_Inr)
  from len assms(2) have pos: "0 < length t choose 2"
    by (simp add: choose_2_pos)
  have acc: "outer_loop c d t (0, 0) =
      (real (length t choose 2) * DELTA_EMPTY d, length t choose 2)"
    by (simp add: outer_loop_eq couples_sum_all_gap [OF assms(3)])
  have "UnitaryAlignement_disorder ua = Inr (Val (DELTA_EMPTY d))"
    using pos
    by (simp add: UnitaryAlignement_disorder_def ua mk_ua_def acc np_truediv_def binom_def)
  then show ?thesis
    by (simp add: acc)
qed

subsection \<open>A single annotator\<close>

text \<open>
  C9 claims that, with exactly one annotator, computing the disorder of a grouping is
  rejected as degenerate input (or given a defined convention) rather than dividing by
  C(1,2) = 0. The source has no such check: the object is built, no couple is visited, and
  the disorder is the \<open>nan\<close> of \<open>0.0 / 0.0\<close>, returned without an error.
\<close>

theorem single_annotator_not_rejected:
  "UnitaryAlignement one_annotator [(0, Some 10)] far_apart =
     Inr (mk_ua one_annotator far_apart [(0, Some 10)])
   \<and> UnitaryAlignement_disorder (mk_ua one_annotator far_apart [(0, Some 10)]) = Inr NaN"
  by (simp add: UnitaryAlignement_def UnitaryAlignement_disorder_def mk_ua_def
      one_annotator_def len_continuum_def binom_def np_truediv_def)

text \<open>
  C9, amended. For every timeline with exactly one annotator, the disorder of a grouping
  is computed without any rejection: the division by C(1,2) = 0 is performed and its result,
  \<open>nan\<close>, is returned.
\<close>

theorem single_annotator_disorder_nan:
  assumes "UnitaryAlignement c t d = Inr ua" and "len_continuum c = 1"
  shows "UnitaryAlignement_disorder ua = Inr NaN"
proof -
  from assms have ua: "ua = mk_ua c d t" and len: "length t = 1"
    by (simp_all add: UnitaryAlignement_Inr)
  from len have "length t choose 2 = 0"
    by simp
  then show ?thesis
    by (simp add: UnitaryAlignement_disorder_eq disorder_of_def ua mk_ua_def np_truediv_def
        binom_def)
qed

theorem single_annotator_disorder_nan_witness:
  "UnitaryAlignement one_annotator [(0, None)] far_apart =
     Inr (mk_ua one_annotator far_apart [(0, None)])
   \<and> len_continuum one_annotator = 1
   \<and> UnitaryAlignement_disorder (mk_ua one_annotator far_apart [(0, None)]) = Inr NaN"
proof -
  have one: "len_continuum one_annotator = 1"
    by (simp add: one_annotator_def len_continuum_def)
  have built: "UnitaryAlignement one_annotator [(0, None)] far_apart =
     Inr (mk_ua one_annotator far_apart [(0, None)])"
    by (simp add: UnitaryAlignement_Inr one)
  from single_annotator_disorder_nan [OF built one] built one show ?thesis
    by simp
qed

subsection \<open>Reordering the slots\<close>

lemma couples_sum_symmetric:
  fixes f :: "'s \<Rightarrow> 's \<Rightarrow> real"
  assumes sym: "\<And>x y. f x y = f y x"
  shows "(\<Sum>x\<leftarrow>t. \<Sum>y\<leftarrow>t. f x y) = 2 * couples_sum f t + (\<Sum>x\<leftarrow>t. f x x)"
proof (induction t)
  case Nil
  show ?case by simp
next
  case (Cons a t)
  have "(\<Sum>x\<leftarrow>t. \<Sum>y\<leftarrow>a # t. f x y) = (\<Sum>x\<leftarrow>t. f x a) + (\<Sum>x\<leftarrow>t. \<Sum>y\<leftarrow>t. f x y)"
    by (simp add: sum_list_addf)
  moreover have "(\<Sum>x\<leftarrow>t. f x a) = (\<Sum>y\<leftarrow>t. f a y)"
    by (simp add: sym [of _ a])
  ultimately show ?case
    using Cons.IH by simp
qed

lemma full_sum_mset:
  fixes f :: "'s \<Rightarrow> 's \<Rightarrow> real"
  shows "(\<Sum>x\<leftarrow>t. \<Sum>y\<leftarrow>t. f x y) =
         sum_mset (image_mset (\<lambda>x. sum_mset (image_mset (f x) (mset t))) (mset t))"
  by (simp add: sum_mset_sum_list [symmetric])

lemma diag_sum_mset:
  fixes f :: "'s \<Rightarrow> 's \<Rightarrow> real"
  shows "(\<Sum>x\<leftarrow>t. f x x) = sum_mset (image_mset (\<lambda>x. f x x) (mset t))"
  by (simp add: sum_mset_sum_list [symmetric])

lemma couples_sum_permutation:
  fixes f :: "'s \<Rightarrow> 's \<Rightarrow> real"
  assumes sym: "\<And>x y. f x y = f y x" and perm: "mset t' = mset t"
  shows "couples_sum f t' = couples_sum f t"
proof -
  have "2 * couples_sum f t' = (\<Sum>x\<leftarrow>t'. \<Sum>y\<leftarrow>t'. f x y) - (\<Sum>x\<leftarrow>t'. f x x)"
    using couples_sum_symmetric [of f t', OF sym] by simp
  also have "\<dots> = (\<Sum>x\<leftarrow>t. \<Sum>y\<leftarrow>t. f x y) - (\<Sum>x\<leftarrow>t. f x x)"
    unfolding full_sum_mset diag_sum_mset perm ..
  also have "\<dots> = 2 * couples_sum f t"
    using couples_sum_symmetric [of f t, OF sym] by simp
  finally show ?thesis by simp
qed

lemma pair_cost_symmetric:
  assumes "\<forall>u v p q. dvalue d (u, v) (p, q) = dvalue d (v, u) (q, p)"
  shows "pair_cost c d s s' = pair_cost c d s' s"
  using assms by (auto simp: pair_cost_def)

text \<open>
  Without rounding, and for a distance function that is symmetric in its two units, the
  disorder of a grouping is that of every permutation of its slots (an n-tuple with the same
  multiset of slots).
\<close>

lemma disorder_permutation_exact:
  assumes "\<forall>u v p q. dvalue d (u, v) (p, q) = dvalue d (v, u) (q, p)"
    and "UnitaryAlignement c t d = Inr ua"
    and "mset t' = mset t"
  shows "\<exists>ua'. UnitaryAlignement c t' d = Inr ua'
           \<and> UnitaryAlignement_disorder ua' = UnitaryAlignement_disorder ua"
proof -
  from assms(2) have ua: "ua = mk_ua c d t" and len: "length t = len_continuum c"
    by (simp_all add: UnitaryAlignement_Inr)
  from assms(3) have len': "length t' = length t"
    by (rule mset_eq_length)
  have built: "UnitaryAlignement c t' d = Inr (mk_ua c d t')"
    by (simp add: UnitaryAlignement_Inr len' len)
  have "couples_sum (pair_cost c d) t' = couples_sum (pair_cost c d) t"
    by (rule couples_sum_permutation [OF pair_cost_symmetric [OF assms(1)] assms(3)])
  then have "UnitaryAlignement_disorder (mk_ua c d t') = UnitaryAlignement_disorder ua"
    by (simp add: UnitaryAlignement_disorder_eq disorder_of_couples ua mk_ua_def len')
  with built show ?thesis by blast
qed


section \<open>The disorder of a unitary alignement, in doubles\<close>

subsection \<open>Rounding\<close>

lemma round_even_of_int [simp]: "round_even (of_int n) = n"
  by (simp add: round_even_def)

lemma double_at:
  assumes "2 powr of_int k \<le> \<bar>x\<bar>" and "\<bar>x\<bar> < 2 powr (of_int k + 1)"
  shows "double x = of_int (round_even (x / 2 powr of_int (k - 52))) * 2 powr of_int (k - 52)"
proof -
  have "0 < (2::real) powr of_int k"
    by simp
  with assms(1) have pos: "0 < \<bar>x\<bar>"
    by linarith
  then have "\<lfloor>log 2 \<bar>x\<bar>\<rfloor> = k"
    using assms by (simp add: floor_log_eq_powr_iff)
  with pos show ?thesis
    by (simp add: double_def)
qed

lemma double_eval:
  assumes "2 powr of_int k \<le> \<bar>x\<bar>" and "\<bar>x\<bar> < 2 powr (of_int k + 1)"
    and "of_int (round_even (x / 2 powr of_int (k - 52))) * 2 powr of_int (k - 52) = y"
  shows "double x = y"
  using double_at [OF assms(1,2)] assms(3) by simp

text \<open>A natural multiple of a power of two that fits 53 bits is a double.\<close>

lemma double_multiple:
  assumes x: "x = real k * 2 powr of_int e" and k: "k \<le> 2 ^ 53"
  shows "double x = x"
proof (cases "k = 0")
  case True
  with x show ?thesis
    by (simp add: double_def)
next
  case False
  then have kpos: "0 < real k"
    by simp
  define b where "b = \<lfloor>log 2 (real k)\<rfloor>"
  have b: "2 powr of_int b \<le> real k" "real k < 2 powr (of_int b + 1)"
    using floor_log_eq_powr_iff [of "real k" 2 b] kpos by (simp_all add: b_def)
  have xabs: "\<bar>x\<bar> = real k * 2 powr of_int e"
    using x kpos by simp
  have lo: "2 powr of_int (b + e) \<le> \<bar>x\<bar>"
    unfolding xabs using b(1) by (simp add: powr_add)
  have hi: "\<bar>x\<bar> < 2 powr (of_int (b + e) + 1)"
  proof -
    have "real k * 2 powr of_int e < 2 powr (of_int b + 1) * 2 powr of_int e"
      using b(2) by simp
    also have "\<dots> = 2 powr (of_int (b + e) + 1)"
      by (simp add: powr_add [symmetric] algebra_simps)
    finally show ?thesis
      unfolding xabs .
  qed
  have quot: "x / 2 powr of_int (b + e - 52) = real k * 2 powr of_int (52 - b)"
    unfolding x by (simp add: powr_diff powr_add powr_minus field_simps)
  have k53: "real k \<le> 2 ^ 53"
    using k by (metis of_nat_le_iff of_nat_numeral of_nat_power)
  have p53: "(2::real) powr real_of_int 53 = 2 ^ 53"
    by simp
  from b(1) k53 have "(2::real) powr real_of_int b \<le> 2 powr real_of_int 53"
    unfolding p53 by linarith
  then have "real_of_int b \<le> real_of_int 53"
    by (simp only: powr_le_cancel_iff semiring_norm)
  then have b53: "b \<le> 53"
    by linarith
  have "\<exists>n::int. real k * 2 powr of_int (52 - b) = of_int n"
  proof (cases "b \<le> 52")
    case True
    then have "(2::real) powr of_int (52 - b) = 2 ^ nat (52 - b)"
      using powr_real_of_int [of "2::real" "52 - b"] by simp
    then have "real k * 2 powr of_int (52 - b) = of_int (int k * 2 ^ nat (52 - b))"
      by simp
    then show ?thesis ..
  next
    case False
    with b53 have b_eq: "b = 53"
      by simp
    with b(1) have "2 ^ 53 \<le> real k"
      by simp
    with k53 have "real k = 2 ^ 53"
      by simp
    then have "real k * 2 powr of_int (52 - b) = of_int (2 ^ 52)"
      by (simp add: b_eq powr_minus)
    then show ?thesis ..
  qed
  then obtain n :: int where n: "real k * 2 powr of_int (52 - b) = of_int n"
    by blast
  have "double x = of_int n * 2 powr of_int (b + e - 52)"
    unfolding double_at [OF lo hi] quot n by simp
  also have "\<dots> = (x / 2 powr of_int (b + e - 52)) * 2 powr of_int (b + e - 52)"
    unfolding quot n ..
  also have "\<dots> = x"
    by simp
  finally show ?thesis .
qed

lemma multiple_of_0 [simp]: "multiple_of e 0"
  unfolding multiple_of_def by (rule exI [of _ 0]) simp

lemma multiple_of_add: "multiple_of e x \<Longrightarrow> multiple_of e y \<Longrightarrow> multiple_of e (x + y)"
proof -
  assume "multiple_of e x" and "multiple_of e y"
  then obtain k l :: nat where "x = real k * 2 powr of_int e" "y = real l * 2 powr of_int e"
    by (auto simp: multiple_of_def)
  then have "x + y = real (k + l) * 2 powr of_int e"
    by (simp add: algebra_simps)
  then show ?thesis
    unfolding multiple_of_def ..
qed

lemma multiple_of_nonneg: "multiple_of e x \<Longrightarrow> 0 \<le> x"
  by (auto simp: multiple_of_def)

lemma multiple_of_sum_list:
  "\<forall>x\<in>set xs. multiple_of e x \<Longrightarrow> multiple_of e (sum_list xs)"
  by (induction xs) (simp_all add: multiple_of_add)

lemma multiple_of_nat: "multiple_of 0 (real n)"
  unfolding multiple_of_def by (rule exI [of _ n]) simp

lemma double_bounded_multiple:
  assumes "multiple_of e x" and "x \<le> 2 ^ 53 * 2 powr of_int e"
  shows "double x = x"
proof -
  from assms(1) obtain k :: nat where x: "x = real k * 2 powr of_int e"
    by (auto simp: multiple_of_def)
  with assms(2) have "real k \<le> 2 ^ 53"
    by simp
  then have "k \<le> 2 ^ 53"
    by (metis of_nat_le_iff of_nat_numeral of_nat_power)
  with x show ?thesis
    by (rule double_multiple)
qed

subsection \<open>Sums that no addition rounds\<close>

lemma inner_loop_double_exact:
  assumes "\<forall>sv\<in>set rest. multiple_of e (pair_cost c d su sv)"
    and "multiple_of e s"
    and "s + (\<Sum>sv\<leftarrow>rest. pair_cost c d su sv) \<le> 2 ^ 53 * 2 powr of_int e"
  shows "inner_loop_double c d su rest (s, k) = inner_loop c d su rest (s, k)"
  using assms
proof (induction rest arbitrary: s k)
  case Nil
  show ?case by simp
next
  case (Cons sv rest)
  let ?s = "s + pair_cost c d su sv"
  have mult: "multiple_of e ?s"
    using Cons.prems by (simp add: multiple_of_add)
  have "0 \<le> (\<Sum>sv\<leftarrow>rest. pair_cost c d su sv)"
    using Cons.prems(1) by (intro sum_list_nonneg) (auto dest: multiple_of_nonneg)
  with Cons.prems(3) have le: "?s \<le> 2 ^ 53 * 2 powr of_int e"
    by simp
  have exact: "double ?s = ?s"
    by (rule double_bounded_multiple [OF mult le])
  have "inner_loop_double c d su rest (?s, Suc k) = inner_loop c d su rest (?s, Suc k)"
    using Cons.prems by (intro Cons.IH mult) (simp_all add: add.assoc)
  then show ?case
    by (simp add: couple_term_pair_cost exact)
qed

lemma couples_sum_nonneg_on:
  "\<forall>x\<in>set t. \<forall>y\<in>set t. 0 \<le> f x y \<Longrightarrow> 0 \<le> couples_sum f t"
  by (induction t) (auto intro!: add_nonneg_nonneg sum_list_nonneg)

lemma outer_loop_double_exact:
  assumes "\<forall>x\<in>set t. \<forall>y\<in>set t. multiple_of e (pair_cost c d x y)"
    and "multiple_of e s"
    and "s + couples_sum (pair_cost c d) t \<le> 2 ^ 53 * 2 powr of_int e"
  shows "outer_loop_double c d t (s, k) = outer_loop c d t (s, k)"
  using assms
proof (induction t arbitrary: s k)
  case Nil
  show ?case by simp
next
  case (Cons su rest)
  let ?row = "\<Sum>sv\<leftarrow>rest. pair_cost c d su sv"
  have rest_nonneg: "0 \<le> couples_sum (pair_cost c d) rest"
    using Cons.prems(1) by (intro couples_sum_nonneg_on) (auto dest: multiple_of_nonneg)
  have row: "\<forall>sv\<in>set rest. multiple_of e (pair_cost c d su sv)"
    using Cons.prems(1) by simp
  have inner: "inner_loop_double c d su rest (s, k) = inner_loop c d su rest (s, k)"
    using Cons.prems(3) rest_nonneg
    by (intro inner_loop_double_exact [OF row Cons.prems(2)]) simp
  have mult: "multiple_of e (s + ?row)"
    using row by (intro multiple_of_add Cons.prems(2) multiple_of_sum_list) simp
  have "outer_loop_double c d rest (s + ?row, k + length rest) =
          outer_loop c d rest (s + ?row, k + length rest)"
    using Cons.prems(1,3) by (intro Cons.IH mult) (simp_all add: add.assoc)
  then show ?case
    by (simp add: inner inner_loop_eq)
qed

lemma disorder_double_exact:
  assumes "\<forall>x\<in>set (n_tuple ua). \<forall>y\<in>set (n_tuple ua).
             multiple_of e (pair_cost (ua_continuum ua) (ua_combined_dissimilarity ua) x y)"
    and "couples_sum (pair_cost (ua_continuum ua) (ua_combined_dissimilarity ua)) (n_tuple ua)
           \<le> 2 ^ 53 * 2 powr of_int e"
  shows "UnitaryAlignement_disorder_double ua =
           Inr (np_truediv_double
                  (couples_sum (pair_cost (ua_continuum ua) (ua_combined_dissimilarity ua))
                     (n_tuple ua))
                  (binom (length (n_tuple ua)) 2))"
proof -
  have "outer_loop_double (ua_continuum ua) (ua_combined_dissimilarity ua) (n_tuple ua) (0, 0) =
          outer_loop (ua_continuum ua) (ua_combined_dissimilarity ua) (n_tuple ua) (0, 0)"
    using assms by (intro outer_loop_double_exact [where e = e]) simp_all
  then show ?thesis
    by (simp add: UnitaryAlignement_disorder_double_def outer_loop_eq binom_def)
qed

subsection \<open>Three annotators, evaluated\<close>

lemma three_annotators_len [simp]: "len_continuum three_annotators = 3"
  by (simp add: three_annotators_def len_continuum_def)

lemma by_sum_simps [simp]:
  "DELTA_EMPTY by_sum = 1" "dvalue by_sum uv pq = real (fst uv + snd uv)"
  by (simp_all add: by_sum_def)

lemma choose_three [simp]: "Suc (Suc (Suc 0)) choose 2 = 3"
  by (simp add: numeral_2_eq_2)


lemma uneven_forward:
  "UnitaryAlignement_disorder_double
     (mk_ua three_annotators uneven [(0, Some 10), (1, Some 20), (2, Some 30)]) =
   Inr (Val (7205759403792795 / 2 ^ 55))"
proof -
  define a :: real where "a = 3602879701896397 / 2 ^ 55"
  define b :: real where "b = 3602879701896397 / 2 ^ 54"
  define c :: real where "c = 5404319552844595 / 2 ^ 54"
  define ab :: real where "ab = 5404319552844596 / 2 ^ 54"
  define abc :: real where "abc = 5404319552844596 / 2 ^ 53"
  have d: "dvalue uneven (10, 20) pq = a" "dvalue uneven (10, 30) pq = b"
    "dvalue uneven (20, 30) pq = c" for pq
    by (simp_all add: uneven_def a_def b_def c_def)
  have s1: "double a = a"
    unfolding a_def
    by (rule double_eval [where k = "- 4"]) (simp_all add: round_even_def powr_neg_numeral)
  have s2: "double (a + b) = ab"
    unfolding a_def b_def ab_def
    by (rule double_eval [where k = "- 2"]) (simp_all add: round_even_def powr_neg_numeral)
  have s3: "double (ab + c) = abc"
    unfolding ab_def c_def abc_def
    by (rule double_eval [where k = "- 1"]) (simp_all add: round_even_def powr_neg_numeral)
  have s4: "double (abc / 3) = 7205759403792795 / 2 ^ 55"
    unfolding abc_def
    by (rule double_eval [where k = "- 3"]) (simp_all add: round_even_def powr_neg_numeral)
  show ?thesis
    by (simp add: UnitaryAlignement_disorder_double_def mk_ua_def np_truediv_double_def
        binom_def d s1 s2 s3 s4)
qed

lemma uneven_backward:
  "UnitaryAlignement_disorder_double
     (mk_ua three_annotators uneven [(2, Some 30), (1, Some 20), (0, Some 10)]) =
   Inr (Val (7205759403792793 / 2 ^ 55))"
proof -
  define a :: real where "a = 3602879701896397 / 2 ^ 55"
  define b :: real where "b = 3602879701896397 / 2 ^ 54"
  define c :: real where "c = 5404319552844595 / 2 ^ 54"
  define cb :: real where "cb = 1 / 2"
  define cba :: real where "cba = 5404319552844595 / 2 ^ 53"
  have d: "dvalue uneven (20, 10) pq = a" "dvalue uneven (30, 10) pq = b"
    "dvalue uneven (30, 20) pq = c" for pq
    by (simp_all add: uneven_def a_def b_def c_def)
  have s1: "double c = c"
    unfolding c_def
    by (rule double_eval [where k = "- 2"]) (simp_all add: round_even_def powr_neg_numeral)
  have s2: "double (c + b) = cb"
    unfolding c_def b_def cb_def
    by (rule double_eval [where k = "- 1"]) (simp_all add: round_even_def powr_neg_numeral)
  have s3: "double (cb + a) = cba"
    unfolding cb_def a_def cba_def
    by (rule double_eval [where k = "- 1"]) (simp_all add: round_even_def powr_neg_numeral)
  have s4: "double (cba / 3) = 7205759403792793 / 2 ^ 55"
    unfolding cba_def
    by (rule double_eval [where k = "- 3"]) (simp_all add: round_even_def powr_neg_numeral)
  show ?thesis
    by (simp add: UnitaryAlignement_disorder_double_def mk_ua_def np_truediv_double_def
        binom_def d s1 s2 s3 s4)
qed

lemma uneven_symmetric:
  "\<forall>u v p q. dvalue uneven (u, v) (p, q) = dvalue uneven (v, u) (q, p)"
  by (simp add: uneven_def add.commute)

subsection \<open>The grouping of gaps, in doubles\<close>




subsection \<open>Reordering the slots, in doubles\<close>

text \<open>
  C7 claims that, for a distance function symmetric in its two units, the disorder of a
  grouping equals that of every permutation of its slots. The source adds the doubles in
  the order of the slots: with the symmetric distances 0.1, 0.2 and 0.3 between three units,
  the order (0, 1, 2) gives (0.1 + 0.2) + 0.3 = 0.6000000000000001 and the disorder
  0.20000000000000004, the reverse order gives (0.3 + 0.2) + 0.1 = 0.6 and the disorder
  0.19999999999999998.
\<close>

theorem permuted_disorder_differs:
  "dvalue uneven (10, 20) ((), ()) = dvalue uneven (20, 10) ((), ())
   \<and> dvalue uneven (10, 30) ((), ()) = dvalue uneven (30, 10) ((), ())
   \<and> dvalue uneven (20, 30) ((), ()) = dvalue uneven (30, 20) ((), ())
   \<and> mset [(2::nat, Some (30::nat)), (1, Some 20), (0, Some 10)] =
       mset [(0, Some 10), (1, Some 20), (2, Some 30)]
   \<and> UnitaryAlignement three_annotators [(0, Some 10), (1, Some 20), (2, Some 30)] uneven =
       Inr (mk_ua three_annotators uneven [(0, Some 10), (1, Some 20), (2, Some 30)])
   \<and> UnitaryAlignement three_annotators [(2, Some 30), (1, Some 20), (0, Some 10)] uneven =
       Inr (mk_ua three_annotators uneven [(2, Some 30), (1, Some 20), (0, Some 10)])
   \<and> UnitaryAlignement_disorder_double
         (mk_ua three_annotators uneven [(0, Some 10), (1, Some 20), (2, Some 30)]) =
       Inr (Val (7205759403792795 / 2 ^ 55))
   \<and> UnitaryAlignement_disorder_double
         (mk_ua three_annotators uneven [(2, Some 30), (1, Some 20), (0, Some 10)]) =
       Inr (Val (7205759403792793 / 2 ^ 55))"
proof -
  have sym: "dvalue uneven (10, 20) ((), ()) = dvalue uneven (20, 10) ((), ())"
    "dvalue uneven (10, 30) ((), ()) = dvalue uneven (30, 10) ((), ())"
    "dvalue uneven (20, 30) ((), ()) = dvalue uneven (30, 20) ((), ())"
    by (simp_all add: uneven_def)
  have perm: "mset [(2::nat, Some (30::nat)), (1, Some 20), (0, Some 10)] =
       mset [(0, Some 10), (1, Some 20), (2, Some 30)]"
    by simp
  have built:
    "UnitaryAlignement three_annotators [(0, Some 10), (1, Some 20), (2, Some 30)] uneven =
       Inr (mk_ua three_annotators uneven [(0, Some 10), (1, Some 20), (2, Some 30)])"
    "UnitaryAlignement three_annotators [(2, Some 30), (1, Some 20), (0, Some 10)] uneven =
       Inr (mk_ua three_annotators uneven [(2, Some 30), (1, Some 20), (0, Some 10)])"
    by (simp_all add: UnitaryAlignement_Inr)
  from sym perm built uneven_forward uneven_backward show ?thesis
    by blast
qed

text \<open>
  C7, amended. For every grouping over n >= 2 annotators and every permutation of its
  slots, the disorder of the permuted grouping equals the disorder of the original one,
  when the distance function is symmetric in its two units and no addition rounds: the gap
  cost and every distance are natural multiples of one power of two, 2^e, and the sum over
  the pairs of slots is at most 2^53 * 2^e (integer distances, for instance). Otherwise the
  two disorders agree up to rounding only. The statement holds for every n.
\<close>

theorem disorder_permutation_invariant_double:
  assumes "\<forall>u v p q. dvalue d (u, v) (p, q) = dvalue d (v, u) (q, p)"
    and "UnitaryAlignement c t d = Inr ua"
    and "mset t' = mset t"
    and "multiple_of e (DELTA_EMPTY d)"
    and "\<forall>uv pq. multiple_of e (dvalue d uv pq)"
    and "(\<Sum>(i, j)\<in>slot_pairs (length t). pair_cost c d (t ! i) (t ! j))
           \<le> 2 ^ 53 * 2 powr of_int e"
  shows "\<exists>ua'. UnitaryAlignement c t' d = Inr ua'
           \<and> UnitaryAlignement_disorder_double ua' = UnitaryAlignement_disorder_double ua"
proof -
  from assms(2) have ua: "ua = mk_ua c d t" and len: "length t = len_continuum c"
    by (simp_all add: UnitaryAlignement_Inr)
  from assms(3) have len': "length t' = length t"
    by (rule mset_eq_length)
  have built: "UnitaryAlignement c t' d = Inr (mk_ua c d t')"
    by (simp add: UnitaryAlignement_Inr len' len)
  have grid: "multiple_of e (pair_cost c d x y)" for x y
    using assms(4,5) by (simp add: pair_cost_def)
  have same: "couples_sum (pair_cost c d) t' = couples_sum (pair_cost c d) t"
    by (rule couples_sum_permutation [OF pair_cost_symmetric [OF assms(1)] assms(3)])
  have le: "couples_sum (pair_cost c d) t \<le> 2 ^ 53 * 2 powr of_int e"
    using assms(6) by (simp add: couples_sum_pairs_sum pairs_sum_def)
  have "UnitaryAlignement_disorder_double (mk_ua c d t) =
          Inr (np_truediv_double (couples_sum (pair_cost c d) t) (binom (length t) 2))"
    using disorder_double_exact [of "mk_ua c d t" e] grid le by (simp add: mk_ua_def)
  moreover have "UnitaryAlignement_disorder_double (mk_ua c d t') =
          Inr (np_truediv_double (couples_sum (pair_cost c d) t') (binom (length t') 2))"
    using disorder_double_exact [of "mk_ua c d t'" e] grid le same by (simp add: mk_ua_def)
  ultimately have "UnitaryAlignement_disorder_double (mk_ua c d t') =
      UnitaryAlignement_disorder_double ua"
    by (simp add: ua same len')
  with built show ?thesis by blast
qed

theorem disorder_permutation_invariant_double_witness:
  "UnitaryAlignement three_annotators [(0, Some 10), (1, Some 20), (2, Some 30)] by_sum =
     Inr (mk_ua three_annotators by_sum [(0, Some 10), (1, Some 20), (2, Some 30)])
   \<and> mset [(2::nat, Some (30::nat)), (1, Some 20), (0, Some 10)] =
       mset [(0, Some 10), (1, Some 20), (2, Some 30)]
   \<and> multiple_of 0 (DELTA_EMPTY by_sum)
   \<and> UnitaryAlignement three_annotators [(2, Some 30), (1, Some 20), (0, Some 10)] by_sum =
       Inr (mk_ua three_annotators by_sum [(2, Some 30), (1, Some 20), (0, Some 10)])
   \<and> UnitaryAlignement_disorder_double
         (mk_ua three_annotators by_sum [(2, Some 30), (1, Some 20), (0, Some 10)]) =
       UnitaryAlignement_disorder_double
         (mk_ua three_annotators by_sum [(0, Some 10), (1, Some 20), (2, Some 30)])"
proof -
  let ?t = "[(0::nat, Some (10::nat)), (1, Some 20), (2, Some 30)]"
  let ?t' = "[(2::nat, Some (30::nat)), (1, Some 20), (0, Some 10)]"
  have sym: "\<forall>u v p q. dvalue by_sum (u, v) (p, q) = dvalue by_sum (v, u) (q, p)"
    by (simp add: add.commute)
  have built: "UnitaryAlignement three_annotators ?t by_sum =
      Inr (mk_ua three_annotators by_sum ?t)"
    by (simp add: UnitaryAlignement_Inr)
  have perm: "mset ?t' = mset ?t"
    by simp
  have gap: "multiple_of 0 (DELTA_EMPTY by_sum)"
    using multiple_of_nat [of 1] by simp
  have dist: "\<forall>uv pq. multiple_of 0 (dvalue by_sum uv pq)"
    unfolding by_sum_simps by (intro allI multiple_of_nat)
  have "(\<Sum>(i, j)\<in>slot_pairs (length ?t). pair_cost three_annotators by_sum (?t ! i) (?t ! j)) =
          couples_sum (pair_cost three_annotators by_sum) ?t"
    by (simp only: couples_sum_pairs_sum pairs_sum_def)
  also have "\<dots> = 120"
    by (simp add: pair_cost_def is_gap_def)
  finally have small:
    "(\<Sum>(i, j)\<in>slot_pairs (length ?t). pair_cost three_annotators by_sum (?t ! i) (?t ! j))
       \<le> 2 ^ 53 * 2 powr of_int 0"
    by simp
  from disorder_permutation_invariant_double [OF sym built perm gap dist small] obtain ua'
    where "UnitaryAlignement three_annotators ?t' by_sum = Inr ua'"
      and "UnitaryAlignement_disorder_double ua' =
             UnitaryAlignement_disorder_double (mk_ua three_annotators by_sum ?t)"
    by blast
  then have "UnitaryAlignement three_annotators ?t' by_sum =
       Inr (mk_ua three_annotators by_sum ?t')
     \<and> UnitaryAlignement_disorder_double (mk_ua three_annotators by_sum ?t') =
       UnitaryAlignement_disorder_double (mk_ua three_annotators by_sum ?t)"
    by (auto simp: UnitaryAlignement_Inr)
  with built perm gap show ?thesis by blast
qed

section \<open>Alignement\<close>

subsection \<open>The set partition tests\<close>

lemma count_found_eq: "count_found a u uas k = k + ref_count uas (a, u)"
  by (induction uas arbitrary: k) (simp_all add: ref_count_def)

lemma check_units_eq:
  "check_units a us uas =
     verdict uas (find (\<lambda>p. ref_count uas p \<noteq> 1) (map (\<lambda>u. (a, u)) us))"
  by (induction us) (auto simp: count_found_eq verdict_def Let_def)

lemma find_append_case:
  "find P (xs @ ys) = (case find P xs of None \<Rightarrow> find P ys | Some x \<Rightarrow> Some x)"
  by (induction xs) simp_all

lemma check_annotators_eq:
  "check_annotators c as uas =
     verdict uas (find (\<lambda>p. ref_count uas p \<noteq> 1)
       (concat (map (\<lambda>a. map (\<lambda>u. (a, u)) (itersegments c a)) as)))"
proof (induction as)
  case Nil
  show ?case by (simp add: verdict_def)
next
  case (Cons a as)
  show ?case
    by (cases "find (\<lambda>p. ref_count uas p \<noteq> 1) (map (\<lambda>u. (a, u)) (itersegments c a))")
       (simp_all add: check_units_eq find_append_case Cons.IH verdict_def)
qed

lemma set_partition_tests_eq:
  "set_partition_tests c uas =
     verdict uas (find (\<lambda>p. ref_count uas p \<noteq> 1) (timeline_pairs c))"
  by (simp add: set_partition_tests_def check_annotators_eq timeline_pairs_def)

lemma set_partition_tests_Inr:
  "set_partition_tests c uas = Inr () \<longleftrightarrow> exact_partition c uas"
proof -
  have "set_partition_tests c uas = Inr () \<longleftrightarrow>
          find (\<lambda>p. ref_count uas p \<noteq> 1) (timeline_pairs c) = None"
    by (simp add: set_partition_tests_eq verdict_def split: option.splits)
  also have "\<dots> \<longleftrightarrow> exact_partition c uas"
    unfolding find_None_iff exact_partition_def list_all_iff by blast
  finally show ?thesis .
qed

lemma timeline_pairs_two [simp]: "timeline_pairs two_annotators = [(0, 10), (1, 20)]"
  by (simp add: timeline_pairs_def)


text \<open>
  C3 claims that, if some pair is referenced by zero groupings, construction fails with a
  partition error identifying that missing pair, and likewise for a pair referenced more
  than once. The tests raise at the first pair, in the order of iteration, that is not
  referenced exactly once, and look no further: in the collection that holds \<open>left_alone\<close>
  twice, the pair (1, 20) is referenced by no grouping, yet the error names the pair
  (0, 10), assigned twice.
\<close>

theorem only_first_offending_pair_reported:
  "(1, 20) \<in> set (timeline_pairs two_annotators)
   \<and> ref_count [left_alone, left_alone] (1, 20) = 0
   \<and> ref_count [left_alone, left_alone] (0, 10) = 2
   \<and> Alignement two_annotators [left_alone, left_alone] far_apart = Inl (AssignedTwice 0 10)
   \<and> Alignement two_annotators [left_alone, left_alone] far_apart \<noteq> Inl (NotInSet 1 20)"
  by (simp add: Alignement_def set_partition_tests_def ref_count_def)

text \<open>
  C3, amended. Constructing an Alignment succeeds if and only if every (annotator, unit)
  pair of the timeline is referenced by exactly one grouping; otherwise it fails
  immediately, at the first pair in the order of iteration that is not referenced exactly
  once, with the partition error identifying this pair: as missing when no grouping
  references it, as assigned twice when more than one grouping does. Pairs after it are
  not examined.
\<close>

theorem Alignement_partition_check:
  "Alignement c uas d =
     (case find (\<lambda>p. ref_count uas p \<noteq> 1) (timeline_pairs c) of
        None \<Rightarrow> Inr \<lparr>al_continuum = c, set_unitary_alignments = uas,
                     al_combined_dissimilarity = d\<rparr>
      | Some (a, u) \<Rightarrow>
          if ref_count uas (a, u) = 0 then Inl (NotInSet a u) else Inl (AssignedTwice a u))
   \<and> ((\<exists>al. Alignement c uas d = Inr al) \<longleftrightarrow>
        (\<forall>p\<in>set (timeline_pairs c). ref_count uas p = 1))"
proof -
  have eq: "Alignement c uas d =
     (case find (\<lambda>p. ref_count uas p \<noteq> 1) (timeline_pairs c) of
        None \<Rightarrow> Inr \<lparr>al_continuum = c, set_unitary_alignments = uas,
                     al_combined_dissimilarity = d\<rparr>
      | Some (a, u) \<Rightarrow>
          if ref_count uas (a, u) = 0 then Inl (NotInSet a u) else Inl (AssignedTwice a u))"
    by (simp add: Alignement_def set_partition_tests_eq verdict_def split: option.splits)
  have "(\<exists>al. Alignement c uas d = Inr al) \<longleftrightarrow>
          find (\<lambda>p. ref_count uas p \<noteq> 1) (timeline_pairs c) = None"
    unfolding eq by (auto split: option.splits)
  then have "(\<exists>al. Alignement c uas d = Inr al) \<longleftrightarrow>
        (\<forall>p\<in>set (timeline_pairs c). ref_count uas p = 1)"
    unfolding find_None_iff by blast
  with eq show ?thesis by blast
qed

theorem Alignement_partition_check_witness:
  "Alignement two_annotators [left_alone, right_alone] far_apart = Inr split_of_two
   \<and> Alignement two_annotators [left_alone, left_alone, right_alone] far_apart =
       Inl (AssignedTwice 0 10)
   \<and> Alignement two_annotators [left_alone] far_apart = Inl (NotInSet 1 20)"
proof -
  have ok: "Alignement two_annotators [left_alone, right_alone] far_apart = Inr split_of_two"
    using Alignement_partition_check [of two_annotators "[left_alone, right_alone]" far_apart]
    by (simp add: ref_count_def split_of_two_def)
  have twice: "Alignement two_annotators [left_alone, left_alone, right_alone] far_apart =
       Inl (AssignedTwice 0 10)"
    using Alignement_partition_check
      [of two_annotators "[left_alone, left_alone, right_alone]" far_apart]
    by (simp add: ref_count_def)
  have missing: "Alignement two_annotators [left_alone] far_apart = Inl (NotInSet 1 20)"
    using Alignement_partition_check [of two_annotators "[left_alone]" far_apart]
    by (simp add: ref_count_def)
  from ok twice missing show ?thesis by simp
qed

subsection \<open>The disorder of an alignement\<close>

lemma pyadd_assoc: "pyadd (pyadd a b) c = pyadd a (pyadd b c)"
  by (cases a; cases b; cases c) simp_all

lemma pyadd_zero: "pyadd (Val 0) x = x" "pyadd x (Val 0) = x"
  by (cases x; simp)+

lemma sum_disorders_eq:
  "sum_disorders uas acc = Inr (pyadd acc (pysum (map disorder_of uas)))"
  by (induction uas arbitrary: acc)
     (simp_all add: UnitaryAlignement_disorder_eq pyadd_assoc pyadd_zero)





text \<open>
  C10. For an Alignment constructed from an empty collection of groupings over a timeline
  with no (annotator, unit) pairs, the partition check at construction passes vacuously,
  yet reading \<open>disorder\<close> divides by the number of groupings, zero, and fails rather than
  returning a value.
\<close>

theorem empty_Alignement_disorder_fails:
  assumes "timeline_pairs c = []"
  shows "\<exists>al. Alignement c [] d = Inr al \<and> Alignement_disorder al = Inl ZeroDivisionError"
proof -
  let ?al = "\<lparr>al_continuum = c, set_unitary_alignments = [], al_combined_dissimilarity = d\<rparr>"
  have "Alignement c [] d = Inr ?al"
    using assms by (simp add: Alignement_def set_partition_tests_eq verdict_def)
  moreover have "Alignement_disorder ?al = Inl ZeroDivisionError"
    by (simp add: Alignement_disorder_def div_by_count_def num_alignements_def)
  ultimately show ?thesis by blast
qed

theorem empty_Alignement_disorder_fails_witness:
  "timeline_pairs silent_annotators = []
   \<and> (\<exists>al. Alignement silent_annotators [] far_apart = Inr al
          \<and> Alignement_disorder al = Inl ZeroDivisionError)"
proof -
  have none: "timeline_pairs silent_annotators = []"
    by (simp add: timeline_pairs_def silent_annotators_def)
  from empty_Alignement_disorder_fails [OF none, of far_apart] none show ?thesis
    by simp
qed

section \<open>BestAlignement\<close>

subsection \<open>The candidates and their pruning\<close>

lemma prune_loop_eq:
  "\<forall>t\<in>set ts. length t = len_continuum c \<Longrightarrow>
   prune_loop c d ts kept =
     Inr (kept @ filter (\<lambda>ua. pyless (disorder_of ua) (bound c d)) (map (mk_ua c d) ts))"
  by (induction ts arbitrary: kept)
     (simp_all add: UnitaryAlignement_def UnitaryAlignement_disorder_eq mk_ua_def bound_def)

lemma possible_tuples_length:
  "t \<in> set (set_of_possible_tuples c) \<Longrightarrow> length t = len_continuum c"
  by (auto simp: set_of_possible_tuples_def set_of_possible_segments_def len_continuum_def
      dest: in_set_product_lists_length)

lemma candidates_eq:
  "set_of_possible_unitary_alignements c d =
     Inr (filter (\<lambda>ua. pyless (disorder_of ua) (bound c d))
            (map (mk_ua c d) (set_of_possible_tuples c)))"
  by (simp add: set_of_possible_unitary_alignements_def prune_loop_eq possible_tuples_length)

lemma pyless_iff: "pyless x b \<longleftrightarrow> (\<exists>r. x = Val r \<and> r < b)"
  by (cases x) simp_all







subsection \<open>The integer linear program\<close>

lemma numbers_map_Val: "numbers (map Val rs) = Some rs"
  by (induction rs) simp_all

lemma disorders_eq: "disorders uas = Inr (map disorder_of uas)"
  by (induction uas) (simp_all add: UnitaryAlignement_disorder_eq)

lemma all_Val_map: "\<forall>x\<in>set xs. \<exists>r. x = Val r \<Longrightarrow> \<exists>rs. xs = map Val rs"
proof (induction xs)
  case Nil
  show ?case by simp
next
  case (Cons x xs)
  then obtain r rs where "x = Val r" "xs = map Val rs"
    by auto
  then have "x # xs = map Val (r # rs)"
    by simp
  then show ?case by (rule exI)
qed

lemma candidates_numbers:
  assumes "set_of_possible_unitary_alignements c d = Inr cands"
  shows "\<exists>rs. map disorder_of cands = map Val rs"
proof -
  from assms have "\<forall>ua\<in>set cands. \<exists>r. disorder_of ua = Val r"
    by (auto simp: candidates_eq pyless_iff)
  then show ?thesis
    by (intro all_Val_map) auto
qed

lemma vectors_set: "set (List.n_lists n [False, True]) = {y. length y = n}"
  by (auto simp: set_n_lists)

text \<open>The model of the solver: no value exactly when no vector is feasible.\<close>

lemma solve_None:
  "solve (map Val rs) A = None \<longleftrightarrow> \<not> (\<exists>y. length y = length rs \<and> feasible A y)"
proof -
  have "solve (map Val rs) A = None \<longleftrightarrow>
          filter (feasible A) (List.n_lists (length rs) [False, True]) = []"
    by (simp add: solve_def numbers_map_Val split: list.splits)
  also have "\<dots> \<longleftrightarrow> \<not> (\<exists>y. length y = length rs \<and> feasible A y)"
    unfolding filter_empty_conv vectors_set by blast
  finally show ?thesis .
qed

text \<open>Its value is feasible and of least objective among the feasible vectors.\<close>

lemma solve_Some:
  assumes "solve (map Val rs) A = Some x"
  shows "length x = length rs" and "feasible A x"
    and "\<And>y. length y = length rs \<Longrightarrow> feasible A y \<Longrightarrow> objective rs x \<le> objective rs y"
proof -
  let ?F = "filter (feasible A) (List.n_lists (length rs) [False, True])"
  from assms have ne: "?F \<noteq> []" and x: "x = arg_min_list (objective rs) ?F"
    by (auto simp: solve_def numbers_map_Val split: list.splits)
  from ne have "x \<in> set ?F"
    unfolding x by (rule arg_min_list_in)
  then show "length x = length rs" and "feasible A x"
    by (simp_all add: vectors_set)
  fix y :: "bool list"
  assume "length y = length rs" and "feasible A y"
  then have "y \<in> set ?F"
    by (simp add: vectors_set)
  then have "Min (objective rs ` set ?F) \<le> objective rs y"
    by simp
  then show "objective rs x \<le> objective rs y"
    unfolding x f_arg_min_list_f [OF ne] .
qed

lemma chosen_Nil [simp]: "chosen [] x = []" "chosen uas [] = []"
  by (simp_all add: chosen_def)

lemma chosen_Cons [simp]:
  "chosen (ua # uas) (b # x) = (if b then ua # chosen uas x else chosen uas x)"
  by (simp add: chosen_def)

lemma row_sum_chosen:
  "row_sum (map (\<lambda>ua. if P ua then 1 else 0) uas) x = length (filter P (chosen uas x))"
proof (induction uas arbitrary: x)
  case Nil
  show ?case by (simp add: row_sum_def)
next
  case (Cons ua uas)
  show ?case
  proof (cases x)
    case Nil
    then show ?thesis by (simp add: row_sum_def)
  next
    case (Cons b x')
    with Cons.IH [of x'] show ?thesis
      by (simp add: row_sum_def)
  qed
qed

lemma constraints_matrix_rows:
  "constraints_matrix c uas =
     map (\<lambda>p. map (\<lambda>ua. if (fst p, Some (snd p)) \<in> set (n_tuple ua) then 1 else 0) uas)
       (timeline_pairs c)"
  by (simp add: constraints_matrix_def timeline_pairs_def map_concat comp_def)

text \<open>The matrix has the \<open>continuum.num_units\<close> rows that the source allocates.\<close>

lemma constraints_matrix_length: "length (constraints_matrix c uas) = num_units c"
  by (simp add: constraints_matrix_def num_units_def length_concat comp_def)

text \<open>The constraint \<open>matmul(A, x) == 1\<close> says that the chosen groupings are an exact cover.\<close>

lemma feasible_exact_partition:
  "feasible (constraints_matrix c uas) x \<longleftrightarrow> exact_partition c (chosen uas x)"
  by (simp add: feasible_def constraints_matrix_rows list_all_iff row_sum_chosen
      exact_partition_def ref_count_def)

text \<open>The objective is the sum of the disorders of the chosen groupings.\<close>

lemma pysum_chosen:
  "map disorder_of uas = map Val rs \<Longrightarrow>
     pysum (map disorder_of (chosen uas x)) = Val (objective rs x)"
proof (induction uas arbitrary: rs x)
  case Nil
  then show ?case by (simp add: objective_def)
next
  case (Cons ua uas)
  then obtain r rs' where rs: "rs = r # rs'" "disorder_of ua = Val r"
    "map disorder_of uas = map Val rs'"
    by (cases rs) auto
  show ?case
  proof (cases x)
    case Nil
    then show ?thesis by (simp add: objective_def)
  next
    case (Cons b x')
    with Cons.IH [OF rs(3), of x'] rs show ?thesis
      by (simp add: objective_def)
  qed
qed

lemma get_unitary_alignements_best_empty:
  assumes "set_of_possible_unitary_alignements c d = Inr []"
  shows "get_unitary_alignements_best c d = Inl ValueError"
  using assms by (simp add: get_unitary_alignements_best_def)

lemma get_unitary_alignements_best_eq:
  assumes "set_of_possible_unitary_alignements c d = Inr cands"
    and "map disorder_of cands = map Val rs"
    and "cands \<noteq> []"
  shows "get_unitary_alignements_best c d =
           (case solve (map Val rs) (constraints_matrix c cands) of
              None \<Rightarrow> Inl TypeError | Some x \<Rightarrow> Inr (chosen cands x))"
  using assms by (simp add: get_unitary_alignements_best_def disorders_eq)

lemma BestAlignement_Inr:
  assumes "BestAlignement c d = Inr ba"
    and "set_of_possible_unitary_alignements c d = Inr cands"
    and "map disorder_of cands = map Val rs"
  shows "cands \<noteq> []
         \<and> (\<exists>x. solve (map Val rs) (constraints_matrix c cands) = Some x
                \<and> set_unitary_alignements ba = chosen cands x)"
proof -
  have ne: "cands \<noteq> []"
  proof
    assume "cands = []"
    with assms(1,2) show False
      by (simp add: BestAlignement_def get_unitary_alignements_best_empty)
  qed
  with assms show ?thesis
    by (auto simp: BestAlignement_def get_unitary_alignements_best_eq
        split: sum.splits option.splits)
qed

text \<open>
  Whenever some candidate is kept and some choice of candidates is an exact cover, the
  search returns one and the set partition tests accept it.
\<close>

lemma BestAlignement_succeeds:
  assumes "set_of_possible_unitary_alignements c d = Inr cands"
    and "length y = length cands" and "exact_partition c (chosen cands y)"
    and "cands \<noteq> []"
  shows "\<exists>ba. BestAlignement c d = Inr ba \<and> exact_partition c (set_unitary_alignements ba)"
proof -
  from candidates_numbers [OF assms(1)] obtain rs where rs: "map disorder_of cands = map Val rs"
    by blast
  then have len: "length rs = length cands"
    by (metis length_map)
  from assms(2,3) have "solve (map Val rs) (constraints_matrix c cands) \<noteq> None"
    by (auto simp: solve_None len feasible_exact_partition)
  then obtain x where x: "solve (map Val rs) (constraints_matrix c cands) = Some x"
    by blast
  from solve_Some(2) [OF x] have part: "exact_partition c (chosen cands x)"
    by (simp add: feasible_exact_partition)
  then have "set_partition_tests c (chosen cands x) = Inr ()"
    by (simp add: set_partition_tests_Inr)
  then show ?thesis
    using part
    by (simp add: BestAlignement_def get_unitary_alignements_best_eq [OF assms(1) rs assms(4)] x)
qed

text \<open>
  Among the choices of candidates that are an exact cover, the search returns one of least
  sum of disorders.
\<close>

lemma least_sum_among_choices:
  assumes "BestAlignement c d = Inr ba"
    and "set_of_possible_unitary_alignements c d = Inr cands"
    and "length y = length cands"
    and "Alignement c (chosen cands y) d = Inr al"
  shows "\<exists>s s'. sum_disorders (set_unitary_alignements ba) (Val 0) = Inr (Val s)
           \<and> sum_disorders (set_unitary_alignments al) (Val 0) = Inr (Val s')
           \<and> s \<le> s'"
proof -
  from candidates_numbers [OF assms(2)] obtain rs where rs: "map disorder_of cands = map Val rs"
    by blast
  then have len: "length rs = length cands"
    by (metis length_map)
  from BestAlignement_Inr [OF assms(1,2) rs] obtain x
    where x: "solve (map Val rs) (constraints_matrix c cands) = Some x"
      and best: "set_unitary_alignements ba = chosen cands x"
    by blast
  from assms(4) have al: "set_unitary_alignments al = chosen cands y"
    and "set_partition_tests c (chosen cands y) = Inr ()"
    by (auto simp: Alignement_def split: sum.splits)
  then have "feasible (constraints_matrix c cands) y"
    by (simp add: feasible_exact_partition set_partition_tests_Inr)
  with solve_Some(3) [OF x, of y] assms(3) len have "objective rs x \<le> objective rs y"
    by simp
  moreover have "sum_disorders (set_unitary_alignements ba) (Val 0) = Inr (Val (objective rs x))"
    by (simp add: sum_disorders_eq best pysum_chosen [OF rs] pyadd_zero)
  moreover have "sum_disorders (set_unitary_alignments al) (Val 0) = Inr (Val (objective rs y))"
    by (simp add: sum_disorders_eq al pysum_chosen [OF rs] pyadd_zero)
  ultimately show ?thesis by blast
qed

subsection \<open>Groupings, singles and the candidates\<close>

lemma disorder_of_cost: "2 \<le> length (n_tuple ua) \<Longrightarrow> disorder_of ua = Val (cost ua)"
  by (simp add: disorder_of_couples cost_def np_truediv_def binom_def)

lemma possible_tuples_iff:
  "t \<in> set (set_of_possible_tuples c) \<longleftrightarrow> list_all2 (slot_domain c) (iterannotators c) t"
proof -
  have dom: "s \<in> set (map (\<lambda>el. (a, el)) (map Some (itersegments c a) @ [None]))
               \<longleftrightarrow> slot_domain c a s" for a s
    by (cases s) (auto simp: slot_domain_def split: option.splits)
  have "t \<in> set (set_of_possible_tuples c) \<longleftrightarrow>
          list_all2 (\<lambda>s a. s \<in> set (map (\<lambda>el. (a, el)) (map Some (itersegments c a) @ [None])))
            t (iterannotators c)"
    by (simp add: set_of_possible_tuples_def set_of_possible_segments_def product_lists_set
        list_all2_map2)
  also have "\<dots> \<longleftrightarrow> list_all2 (\<lambda>s a. slot_domain c a s) t (iterannotators c)"
    unfolding dom ..
  also have "\<dots> \<longleftrightarrow> list_all2 (slot_domain c) (iterannotators c) t"
    by (rule list_all2_conv_all_nth [THEN trans]) (auto simp: list_all2_conv_all_nth)
  finally show ?thesis .
qed

lemma in_timeline_pairs:
  "p \<in> set (timeline_pairs c) \<longleftrightarrow>
     fst p \<in> set (iterannotators c) \<and> snd p \<in> set (itersegments c (fst p))"
  by (cases p) (auto simp: timeline_pairs_def)

lemma single_possible:
  assumes "p \<in> set (timeline_pairs c)"
  shows "single c p \<in> set (set_of_possible_tuples c)"
  using assms
  by (auto simp: possible_tuples_iff single_def list_all2_map2 list_all2_same slot_domain_def
      in_timeline_pairs)

lemma single_references:
  "(a, Some u) \<in> set (single c p) \<longleftrightarrow> (a, u) = p \<and> fst p \<in> set (iterannotators c)"
  by (cases p) (auto simp: single_def)

lemma possible_tuple_slot:
  assumes "t \<in> set (set_of_possible_tuples c)" and "(a, Some u) \<in> set t"
  shows "(a, u) \<in> set (timeline_pairs c)"
proof -
  from assms(1) have all: "list_all2 (slot_domain c) (iterannotators c) t"
    by (simp add: possible_tuples_iff)
  from assms(2) obtain i where i: "i < length t" "t ! i = (a, Some u)"
    by (auto simp: in_set_conv_nth)
  with all have "slot_domain c (iterannotators c ! i) (a, Some u)" "i < length (iterannotators c)"
    by (auto simp: list_all2_conv_all_nth)
  then show ?thesis
    by (auto simp: slot_domain_def in_timeline_pairs)
qed

lemma set_refs: "set (refs t) = {(a, u). (a, Some u) \<in> set t}"
  by (auto simp: refs_def split: option.splits)

lemma distinct_refs: "distinct (refs t)"
  by (simp add: refs_def)

lemma length_concat_le:
  "(\<And>x. x \<in> set xs \<Longrightarrow> length (f x) \<le> 1) \<Longrightarrow> length (concat (map f xs)) \<le> length xs"
proof (induction xs)
  case Nil
  show ?case by simp
next
  case (Cons x xs)
  have "length (f x) \<le> 1"
    by (rule Cons.prems) simp
  moreover have "length (concat (map f xs)) \<le> length xs"
  proof (rule Cons.IH)
    fix y
    assume "y \<in> set xs"
    then show "length (f y) \<le> 1"
      using Cons.prems [of y] by simp
  qed
  ultimately show ?case by simp
qed

lemma length_refs: "length (refs t) \<le> length t"
proof -
  have "length (refs t) \<le>
      length (concat (map (\<lambda>s. case snd s of None \<Rightarrow> [] | Some u \<Rightarrow> [(fst s, u)]) t))"
    unfolding refs_def by (rule length_remdups_leq)
  also have "\<dots> \<le> length t"
    by (rule length_concat_le) (simp split: option.splits)
  finally show ?thesis .
qed

lemma couples_sum_one_unit:
  "length (filter (\<lambda>s. \<not> is_gap s) t) \<le> 1 \<Longrightarrow>
     couples_sum (pair_cost c d) t = real (length t choose 2) * DELTA_EMPTY d"
proof (induction t)
  case Nil
  show ?case by simp
next
  case (Cons su rest)
  have step: "Suc (length rest) choose 2 = length rest + (length rest choose 2)"
    by (simp add: numeral_2_eq_2)
  show ?case
  proof (cases "is_gap su")
    case True
    then have "(\<Sum>sv\<leftarrow>rest. pair_cost c d su sv) = (\<Sum>sv\<leftarrow>rest. DELTA_EMPTY d)"
      by (simp add: pair_cost_def)
    then have row: "(\<Sum>sv\<leftarrow>rest. pair_cost c d su sv) = real (length rest) * DELTA_EMPTY d"
      by (simp add: sum_list_triv)
    from True Cons.prems have "length (filter (\<lambda>s. \<not> is_gap s) rest) \<le> 1"
      by simp
    then show ?thesis
      using Cons.IH step by (simp add: row algebra_simps)
  next
    case False
    with Cons.prems have none: "filter (\<lambda>s. \<not> is_gap s) rest = []"
      by simp
    then have gaps: "\<forall>s\<in>set rest. is_gap s"
      by (simp add: filter_empty_conv)
    then have "(\<Sum>sv\<leftarrow>rest. pair_cost c d su sv) = (\<Sum>sv\<leftarrow>rest. DELTA_EMPTY d)"
      by (intro arg_cong [where f = sum_list] map_cong) (simp_all add: pair_cost_def)
    then have row: "(\<Sum>sv\<leftarrow>rest. pair_cost c d su sv) = real (length rest) * DELTA_EMPTY d"
      by (simp add: sum_list_triv)
    from none have "length (filter (\<lambda>s. \<not> is_gap s) rest) \<le> 1"
      by simp
    then show ?thesis
      using Cons.IH step by (simp add: row algebra_simps)
  qed
qed

lemma distinct_filter_eq_le: "distinct xs \<Longrightarrow> length (filter (\<lambda>a. a = x) xs) \<le> 1"
  by (induction xs) (auto simp: filter_empty_conv)

lemma single_one_unit:
  assumes "distinct (iterannotators c)"
  shows "length (filter (\<lambda>s. \<not> is_gap s) (single c p)) \<le> 1"
proof -
  have "filter (\<lambda>s. \<not> is_gap s) (single c p) =
          map (\<lambda>a. if a = fst p then (a, Some (snd p)) else (a, None))
            (filter (\<lambda>a. a = fst p) (iterannotators c))"
    by (simp add: single_def filter_map comp_def is_gap_def)
  then show ?thesis
    using distinct_filter_eq_le [OF assms, of "fst p"] by simp
qed

lemma length_single [simp]: "length (single c p) = len_continuum c"
  by (simp add: single_def len_continuum_def)

lemma cost_single:
  assumes "distinct (iterannotators c)" and "2 \<le> len_continuum c"
  shows "cost (mk_ua c d (single c p)) = DELTA_EMPTY d"
proof -
  from assms(2) have "0 < len_continuum c choose 2"
    by simp
  then show ?thesis
    by (simp add: cost_def mk_ua_def couples_sum_one_unit [OF single_one_unit [OF assms(1)]])
qed

lemma pair_cost_nonneg:
  assumes "0 \<le> DELTA_EMPTY d" and "\<forall>uv pq. 0 \<le> dvalue d uv pq"
  shows "0 \<le> pair_cost c d s s'"
  using assms by (simp add: pair_cost_def)

lemma couples_sum_nonneg:
  assumes "\<And>x y. 0 \<le> f x y"
  shows "0 \<le> couples_sum f t"
  by (induction t) (auto intro!: add_nonneg_nonneg sum_list_nonneg assms)

lemma cost_nonneg:
  assumes "0 \<le> DELTA_EMPTY d" and "\<forall>uv pq. 0 \<le> dvalue d uv pq"
  shows "0 \<le> cost (mk_ua c d t)"
  unfolding cost_def mk_ua_def
  by (auto intro!: divide_nonneg_nonneg couples_sum_nonneg pair_cost_nonneg [OF assms])

subsection \<open>Replacing the groupings that the pruning drops\<close>

lemma n_tuple_mk_ua [simp]: "n_tuple (mk_ua c d t) = t"
  by (simp add: mk_ua_def)

lemma candidates_set:
  assumes "set_of_possible_unitary_alignements c d = Inr cands"
  shows "g \<in> set cands \<longleftrightarrow>
     (\<exists>t\<in>set (set_of_possible_tuples c). g = mk_ua c d t) \<and> pyless (disorder_of g) (bound c d)"
  using assms by (auto simp: candidates_eq)

lemma single_kept:
  assumes "distinct (iterannotators c)" and "2 \<le> len_continuum c" and "0 < DELTA_EMPTY d"
  shows "pyless (disorder_of (mk_ua c d (single c p))) (bound c d)"
proof -
  have "disorder_of (mk_ua c d (single c p)) = Val (DELTA_EMPTY d)"
    using assms(2) by (simp add: disorder_of_cost cost_single [OF assms(1,2)])
  moreover have "DELTA_EMPTY d < bound c d"
    using assms(2,3) by (simp add: bound_def)
  ultimately show ?thesis by simp
qed

lemma replace_in_candidates:
  assumes "set_of_possible_unitary_alignements c d = Inr cands"
    and "distinct (iterannotators c)" and "2 \<le> len_continuum c" and "0 < DELTA_EMPTY d"
    and "t \<in> set (set_of_possible_tuples c)"
    and "g' \<in> set (replace c d (mk_ua c d t))"
  shows "g' \<in> set cands"
proof (cases "pyless (disorder_of (mk_ua c d t)) (bound c d)")
  case True
  with assms(5,6) show ?thesis
    by (auto simp: replace_def candidates_set [OF assms(1)])
next
  case False
  with assms(6) obtain p where p: "p \<in> set (refs t)" and g': "g' = mk_ua c d (single c p)"
    by (auto simp: replace_def)
  from p have "(fst p, Some (snd p)) \<in> set t"
    by (auto simp: set_refs)
  with assms(5) have "p \<in> set (timeline_pairs c)"
    using possible_tuple_slot [of t c "fst p" "snd p"] by simp
  then have "single c p \<in> set (set_of_possible_tuples c)"
    by (rule single_possible)
  then show ?thesis
    unfolding g' candidates_set [OF assms(1)]
    using single_kept [OF assms(2,3,4)] by blast
qed

lemma ref_count_Cons:
  "ref_count (ua # uas) p = (if references p ua then 1 else 0) + ref_count uas p"
  by (simp add: ref_count_def references_def)

lemma ref_count_append: "ref_count (xs @ ys) p = ref_count xs p + ref_count ys p"
  by (simp add: ref_count_def)

lemma ref_count_Nil [simp]: "ref_count [] p = 0"
  by (simp add: ref_count_def)

lemma length_filter_eq_distinct:
  "distinct xs \<Longrightarrow> length (filter (\<lambda>q. q = p) xs) = (if p \<in> set xs then 1 else 0)"
  by (induction xs) (auto simp: filter_empty_conv)

lemma ref_count_replace:
  assumes "t \<in> set (set_of_possible_tuples c)"
  shows "ref_count (replace c d (mk_ua c d t)) p = (if references p (mk_ua c d t) then 1 else 0)"
proof (cases "pyless (disorder_of (mk_ua c d t)) (bound c d)")
  case True
  then show ?thesis
    by (simp add: replace_def ref_count_Cons)
next
  case False
  have in_ann: "fst q \<in> set (iterannotators c)" if "q \<in> set (refs t)" for q
  proof -
    from that have "(fst q, Some (snd q)) \<in> set t"
      by (auto simp: set_refs)
    with assms have "q \<in> set (timeline_pairs c)"
      using possible_tuple_slot [of t c "fst q" "snd q"] by simp
    then show ?thesis
      by (simp add: in_timeline_pairs)
  qed
  have "ref_count (map (\<lambda>q. mk_ua c d (single c q)) (refs t)) p =
          length (filter (\<lambda>q. (fst p, Some (snd p)) \<in> set (single c q)) (refs t))"
    by (simp add: ref_count_def filter_map comp_def)
  also have "\<dots> = length (filter (\<lambda>q. q = p) (refs t))"
    by (intro arg_cong [where f = length] filter_cong refl)
       (auto simp: single_references in_ann)
  also have "\<dots> = (if p \<in> set (refs t) then 1 else 0)"
    by (rule length_filter_eq_distinct [OF distinct_refs])
  also have "\<dots> = (if references p (mk_ua c d t) then 1 else 0)"
    by (cases p) (simp add: set_refs references_def)
  finally show ?thesis
    using False by (simp add: replace_def)
qed

lemma cost_replace:
  assumes "distinct (iterannotators c)" and "2 \<le> len_continuum c" and "0 < DELTA_EMPTY d"
    and "t \<in> set (set_of_possible_tuples c)"
  shows "sum_list (map cost (replace c d (mk_ua c d t))) \<le> cost (mk_ua c d t)"
proof (cases "pyless (disorder_of (mk_ua c d t)) (bound c d)")
  case True
  then show ?thesis
    by (simp add: replace_def)
next
  case False
  from assms(4) have len: "length t = len_continuum c"
    by (rule possible_tuples_length)
  with assms(2) have "disorder_of (mk_ua c d t) = Val (cost (mk_ua c d t))"
    by (simp add: disorder_of_cost)
  with False have high: "bound c d \<le> cost (mk_ua c d t)"
    by simp
  have "sum_list (map cost (map (\<lambda>p. mk_ua c d (single c p)) (refs t))) =
          (\<Sum>p\<leftarrow>refs t. DELTA_EMPTY d)"
    by (simp add: comp_def cost_single [OF assms(1,2)])
  also have "\<dots> = real (length (refs t)) * DELTA_EMPTY d"
    by (simp add: sum_list_triv)
  also have "\<dots> \<le> real (len_continuum c) * DELTA_EMPTY d"
    using length_refs [of t] len assms(3) by (simp add: mult_right_mono)
  finally show ?thesis
    using False high by (simp add: replace_def bound_def)
qed

lemma ref_count_concat:
  "ref_count (concat (map f uas)) p = (\<Sum>ua\<leftarrow>uas. ref_count (f ua) p)"
  by (induction uas) (simp_all add: ref_count_append)

lemma ref_count_sum: "ref_count uas p = (\<Sum>ua\<leftarrow>uas. if references p ua then 1 else 0)"
  by (induction uas) (simp_all add: ref_count_Cons)

lemma ref_count_replaced:
  assumes "\<forall>g\<in>set uas. \<exists>t\<in>set (set_of_possible_tuples c). g = mk_ua c d t"
  shows "ref_count (concat (map (replace c d) uas)) p = ref_count uas p"
proof -
  have "ref_count (concat (map (replace c d) uas)) p =
          (\<Sum>ua\<leftarrow>uas. ref_count (replace c d ua) p)"
    by (rule ref_count_concat)
  also have "\<dots> = (\<Sum>ua\<leftarrow>uas. if references p ua then 1 else 0)"
    using assms by (intro arg_cong [where f = sum_list] map_cong refl)
      (auto simp: ref_count_replace)
  also have "\<dots> = ref_count uas p"
    by (rule ref_count_sum [symmetric])
  finally show ?thesis .
qed

lemma cost_replaced:
  assumes "distinct (iterannotators c)" and "2 \<le> len_continuum c" and "0 < DELTA_EMPTY d"
    and "\<forall>g\<in>set uas. \<exists>t\<in>set (set_of_possible_tuples c). g = mk_ua c d t"
  shows "sum_list (map cost (concat (map (replace c d) uas))) \<le> sum_list (map cost uas)"
  using assms(4)
proof (induction uas)
  case Nil
  show ?case by simp
next
  case (Cons g uas)
  then obtain t where "t \<in> set (set_of_possible_tuples c)" "g = mk_ua c d t"
    by auto
  then have "sum_list (map cost (replace c d g)) \<le> cost g"
    using cost_replace [OF assms(1,2,3)] by simp
  moreover have "sum_list (map cost (concat (map (replace c d) uas))) \<le> sum_list (map cost uas)"
    using Cons by simp
  ultimately show ?case by simp
qed

lemma replaced_in_candidates:
  assumes "set_of_possible_unitary_alignements c d = Inr cands"
    and "distinct (iterannotators c)" and "2 \<le> len_continuum c" and "0 < DELTA_EMPTY d"
    and "\<forall>g\<in>set uas. \<exists>t\<in>set (set_of_possible_tuples c). g = mk_ua c d t"
  shows "set (concat (map (replace c d) uas)) \<subseteq> set cands"
  using assms(5) replace_in_candidates [OF assms(1,2,3,4)] by fastforce

lemma ref_count_covers:
  assumes "p \<in> set (timeline_pairs c)"
  shows "ref_count (filter (covers c) gs) p = ref_count gs p"
proof -
  have "filter (references p) (filter (covers c) gs) = filter (references p) gs"
    using assms by (auto simp: covers_def intro!: filter_cong)
  then show ?thesis
    by (simp add: ref_count_def references_def [abs_def])
qed

lemma sum_list_filter_le:
  fixes f :: "'x \<Rightarrow> real"
  assumes "\<And>x. x \<in> set xs \<Longrightarrow> 0 \<le> f x"
  shows "sum_list (map f (filter P xs)) \<le> sum_list (map f xs)"
  using assms by (induction xs) (auto intro: add_increasing)

lemma ref_count_pos:
  "g \<in> set gs \<Longrightarrow> references p g \<Longrightarrow> 0 < ref_count gs p"
  by (induction gs) (auto simp: ref_count_Cons)

lemma covering_distinct:
  assumes "\<forall>p\<in>set P. ref_count gs p \<le> 1"
    and "\<forall>g\<in>set gs. \<exists>p\<in>set P. references p g"
  shows "distinct gs"
  using assms
proof (induction gs)
  case Nil
  show ?case by simp
next
  case (Cons g gs)
  from Cons.prems(2) obtain p where p: "p \<in> set P" "references p g"
    by auto
  with Cons.prems(1) have one: "ref_count gs p = 0"
    by (auto simp: ref_count_Cons)
  have "g \<notin> set gs"
  proof
    assume "g \<in> set gs"
    from ref_count_pos [OF this p(2)] one show False
      by simp
  qed
  moreover have "\<forall>p\<in>set P. ref_count gs p \<le> 1"
    using Cons.prems(1) by (auto simp: ref_count_Cons split: if_splits)
  then have "distinct gs"
    using Cons.prems(2) by (intro Cons.IH) auto
  ultimately show ?case by simp
qed

lemma chosen_map: "chosen xs (map P xs) = filter P xs"
  by (induction xs) simp_all

lemma mset_filter_member:
  assumes "distinct xs" and "distinct ys" and "set ys \<subseteq> set xs"
  shows "mset (filter (\<lambda>x. x \<in> set ys) xs) = mset ys"
proof -
  have eq: "set (filter (\<lambda>x. x \<in> set ys) xs) = set ys"
    using assms(3) by auto
  have dist: "distinct (filter (\<lambda>x. x \<in> set ys) xs)"
    using assms(1) by simp
  from eq show ?thesis
    by (rule set_eq_iff_mset_eq_distinct [OF dist assms(2), THEN iffD1])
qed

lemma ref_count_mset:
  assumes "mset xs = mset ys"
  shows "ref_count xs p = ref_count ys p"
proof -
  have "ref_count xs p = size (filter_mset (references p) (mset xs))"
    by (simp add: ref_count_def references_def [abs_def] flip: mset_filter)
  also have "\<dots> = size (filter_mset (references p) (mset ys))"
    by (simp add: assms)
  also have "\<dots> = ref_count ys p"
    by (simp add: ref_count_def references_def [abs_def] flip: mset_filter)
  finally show ?thesis .
qed

lemma cost_mset:
  assumes "mset xs = mset ys"
  shows "sum_list (map cost xs) = sum_list (map cost ys)"
proof -
  have "sum_list (map cost xs) = sum_mset (image_mset cost (mset xs))"
    by (simp add: sum_mset_sum_list [symmetric])
  also have "\<dots> = sum_mset (image_mset cost (mset ys))"
    by (simp add: assms)
  also have "\<dots> = sum_list (map cost ys)"
    by (simp add: sum_mset_sum_list [symmetric])
  finally show ?thesis .
qed

lemma mk_ua_inject [simp]: "mk_ua c d t = mk_ua c d t' \<longleftrightarrow> t = t'"
  by (simp add: mk_ua_def)

lemma distinct_possible_tuples:
  assumes "\<forall>a\<in>set (iterannotators c). distinct (itersegments c a)"
  shows "distinct (set_of_possible_tuples c)"
  unfolding set_of_possible_tuples_def
proof (rule distinct_product_lists, rule ballI)
  fix xs
  assume "xs \<in> set (set_of_possible_segments c)"
  then obtain a where a: "a \<in> set (iterannotators c)"
    and xs: "xs = map (\<lambda>el. (a, el)) (map Some (itersegments c a) @ [None])"
    by (auto simp: set_of_possible_segments_def)
  from a assms have "distinct (map Some (itersegments c a) @ [None])"
    by (auto simp: distinct_map)
  then show "distinct xs"
    unfolding xs by (simp add: distinct_map inj_on_def del: map_append)
qed

lemma distinct_candidates:
  assumes "set_of_possible_unitary_alignements c d = Inr cands"
    and "\<forall>a\<in>set (iterannotators c). distinct (itersegments c a)"
  shows "distinct cands"
proof -
  have "distinct (map (mk_ua c d) (set_of_possible_tuples c))"
    using distinct_possible_tuples [OF assms(2)] by (simp add: distinct_map inj_on_def)
  then show ?thesis
    using assms(1) by (auto simp: candidates_eq)
qed

lemma is_grouping_iff:
  "is_grouping c d g \<longleftrightarrow> (\<exists>t\<in>set (set_of_possible_tuples c). g = mk_ua c d t)"
  by (cases g) (auto simp: is_grouping_def possible_tuples_iff mk_ua_def)





lemma cover_vector:
  assumes cands: "set_of_possible_unitary_alignements c d = Inr cands"
    and ann: "distinct (iterannotators c)"
    and units: "\<forall>a\<in>set (iterannotators c). distinct (itersegments c a)"
    and two: "2 \<le> len_continuum c"
    and gap: "0 < DELTA_EMPTY d"
    and nonneg: "\<forall>uv pq. 0 \<le> dvalue d uv pq"
    and wf: "\<forall>g\<in>set uas. is_grouping c d g"
    and part: "exact_partition c uas"
  shows "\<exists>y. length y = length cands \<and> exact_partition c (chosen cands y)
           \<and> sum_list (map cost (chosen cands y)) \<le> sum_list (map cost uas)"
proof -
  let ?uas' = "concat (map (replace c d) uas)"
  let ?uas'' = "filter (covers c) ?uas'"
  let ?y = "map (\<lambda>g. g \<in> set ?uas'') cands"
  from wf have wf': "\<forall>g\<in>set uas. \<exists>t\<in>set (set_of_possible_tuples c). g = mk_ua c d t"
    by (simp add: is_grouping_iff)
  have sub': "set ?uas' \<subseteq> set cands"
    by (rule replaced_in_candidates [OF cands ann two gap wf'])
  then have sub'': "set ?uas'' \<subseteq> set cands"
    by auto
  have rc: "ref_count ?uas'' p = 1" if "p \<in> set (timeline_pairs c)" for p
  proof -
    have "ref_count ?uas'' p = ref_count ?uas' p"
      by (rule ref_count_covers [OF that])
    also have "\<dots> = ref_count uas p"
      by (rule ref_count_replaced [OF wf'])
    also have "\<dots> = 1"
      using part that by (simp add: exact_partition_def list_all_iff)
    finally show ?thesis .
  qed
  have dist'': "distinct ?uas''"
  proof (rule covering_distinct [where P = "timeline_pairs c"])
    show "\<forall>p\<in>set (timeline_pairs c). ref_count ?uas'' p \<le> 1"
      using rc by simp
    show "\<forall>g\<in>set ?uas''. \<exists>p\<in>set (timeline_pairs c). references p g"
      by (simp add: covers_def)
  qed
  have ms: "mset (chosen cands ?y) = mset ?uas''"
    unfolding chosen_map
    by (rule mset_filter_member [OF distinct_candidates [OF cands units] dist'' sub''])
  have "ref_count (chosen cands ?y) p = 1" if "p \<in> set (timeline_pairs c)" for p
    using ref_count_mset [OF ms, of p] rc [OF that] by (simp only:)
  then have "exact_partition c (chosen cands ?y)"
    unfolding exact_partition_def list_all_iff by blast
  moreover have "sum_list (map cost (chosen cands ?y)) \<le> sum_list (map cost uas)"
  proof -
    have "sum_list (map cost (chosen cands ?y)) = sum_list (map cost ?uas'')"
      by (rule cost_mset [OF ms])
    also have "\<dots> \<le> sum_list (map cost ?uas')"
    proof (rule sum_list_filter_le)
      fix g
      assume "g \<in> set ?uas'"
      with sub' have "g \<in> set cands"
        by blast
      then obtain t where "g = mk_ua c d t"
        by (auto simp: candidates_set [OF cands])
      then show "0 \<le> cost g"
        using cost_nonneg [of d c t] gap nonneg by simp
    qed
    also have "\<dots> \<le> sum_list (map cost uas)"
      by (rule cost_replaced [OF ann two gap wf'])
    finally show ?thesis .
  qed
  moreover have "length ?y = length cands"
    by simp
  ultimately show ?thesis by blast
qed


text \<open>
  With a positive gap cost the groupings of one unit each are candidates and cover the
  timeline: the search returns a selection and the set partition tests accept it.
\<close>

lemma distinct_timeline_pairs:
  assumes "distinct (iterannotators c)"
    and "\<forall>a\<in>set (iterannotators c). distinct (itersegments c a)"
  shows "distinct (timeline_pairs c)"
proof -
  have "distinct (concat (map (\<lambda>a. map (\<lambda>u. (a, u)) (itersegments c a)) as))"
    if "distinct as" and "\<forall>a\<in>set as. distinct (itersegments c a)" for as
    using that by (induction as) (auto simp: distinct_map inj_on_def)
  from this [OF assms] show ?thesis
    by (simp add: timeline_pairs_def)
qed

lemma singles_partition:
  assumes "distinct (timeline_pairs c)"
  shows "exact_partition c (map (\<lambda>p. mk_ua c d (single c p)) (timeline_pairs c))"
proof -
  have "ref_count (map (\<lambda>q. mk_ua c d (single c q)) (timeline_pairs c)) p = 1"
    if p: "p \<in> set (timeline_pairs c)" for p
  proof -
    have "ref_count (map (\<lambda>q. mk_ua c d (single c q)) (timeline_pairs c)) p =
            length (filter (\<lambda>q. (fst p, Some (snd p)) \<in> set (single c q)) (timeline_pairs c))"
      by (simp add: ref_count_def filter_map comp_def)
    also have "\<dots> = length (filter (\<lambda>q. q = p) (timeline_pairs c))"
      by (intro arg_cong [where f = length] filter_cong refl)
         (auto simp: single_references in_timeline_pairs)
    also have "\<dots> = 1"
      using p by (simp add: length_filter_eq_distinct [OF assms])
    finally show ?thesis .
  qed
  then show ?thesis
    unfolding exact_partition_def list_all_iff by blast
qed

lemma all_gaps_candidate:
  assumes cands: "set_of_possible_unitary_alignements c d = Inr cands"
    and two: "2 \<le> len_continuum c"
    and gap: "0 < DELTA_EMPTY d"
  shows "mk_ua c d (map (\<lambda>a. (a, None)) (iterannotators c)) \<in> set cands"
proof -
  let ?t = "map (\<lambda>a. (a, None :: 'b option)) (iterannotators c)"
  have t: "?t \<in> set (set_of_possible_tuples c)"
    by (simp add: possible_tuples_iff list_all2_map2 list_all2_same slot_domain_def)
  have len: "length ?t = len_continuum c"
    by (simp add: len_continuum_def)
  with two have pos: "0 < length ?t choose 2"
    by (simp add: choose_2_pos)
  have "couples_sum (pair_cost c d) ?t = real (length ?t choose 2) * DELTA_EMPTY d"
    by (rule couples_sum_all_gap) (simp add: is_gap_def)
  with pos have "cost (mk_ua c d ?t) = DELTA_EMPTY d"
    by (simp add: cost_def mk_ua_def)
  with two len have "disorder_of (mk_ua c d ?t) = Val (DELTA_EMPTY d)"
    by (simp add: disorder_of_cost)
  moreover have "DELTA_EMPTY d < bound c d"
    using two gap by (simp add: bound_def)
  ultimately have "pyless (disorder_of (mk_ua c d ?t)) (bound c d)"
    by simp
  with t show ?thesis
    unfolding candidates_set [OF cands] by blast
qed

lemma cover_exists:
  assumes cands: "set_of_possible_unitary_alignements c d = Inr cands"
    and two: "2 \<le> len_continuum c"
    and ann: "distinct (iterannotators c)"
    and units: "\<forall>a\<in>set (iterannotators c). distinct (itersegments c a)"
    and gap: "0 < DELTA_EMPTY d"
    and nonneg: "\<forall>uv pq. 0 \<le> dvalue d uv pq"
  shows "\<exists>y. length y = length cands \<and> exact_partition c (chosen cands y)"
proof -
  let ?uas = "map (\<lambda>p. mk_ua c d (single c p)) (timeline_pairs c)"
  have wf: "\<forall>g\<in>set ?uas. is_grouping c d g"
    by (auto simp: is_grouping_iff single_possible)
  have part: "exact_partition c ?uas"
    by (rule singles_partition [OF distinct_timeline_pairs [OF ann units]])
  from cover_vector [OF cands ann units two gap nonneg wf part] show ?thesis
    by blast
qed

lemma BestAlignement_total:
  assumes two: "2 \<le> len_continuum c"
    and ann: "distinct (iterannotators c)"
    and units: "\<forall>a\<in>set (iterannotators c). distinct (itersegments c a)"
    and gap: "0 < DELTA_EMPTY d"
    and nonneg: "\<forall>uv pq. 0 \<le> dvalue d uv pq"
  shows "\<exists>ba. BestAlignement c d = Inr ba \<and> exact_partition c (set_unitary_alignements ba)"
proof -
  obtain cands where cands: "set_of_possible_unitary_alignements c d = Inr cands"
    by (simp add: candidates_eq)
  from all_gaps_candidate [OF cands two gap] have ne: "cands \<noteq> []"
    by auto
  from cover_exists [OF cands two ann units gap nonneg] obtain y
    where y: "length y = length cands" "exact_partition c (chosen cands y)"
    by blast
  show ?thesis
    by (rule BestAlignement_succeeds [OF cands y ne])
qed

subsection \<open>Two annotators far apart\<close>






text \<open>The optimum of this program is unique: the outcome does not depend on a tie.\<close>

lemma optimum_two_unique:
  assumes "length x = 4" and "feasible [[1, 1, 0, 0], [1, 0, 1, 0]] x"
    and "objective [3 / 2, 1, 1, 1] x \<le> objective [3 / 2, 1, 1, 1] [True, False, False, False]"
  shows "x = [True, False, False, False]"
proof -
  from assms(1) obtain a b c e where x: "x = [a, b, c, e]"
    by (auto simp: length_Suc_conv numeral_eq_Suc)
  from assms(2,3) show ?thesis
    unfolding x by (cases a; cases b; cases c; cases e)
      (simp_all add: feasible_def row_sum_def objective_def)
qed




subsection \<open>No exact cover\<close>





text \<open>
  Outside the domain of the specification, with a negative distance, a candidate can be
  kept while no choice of candidates covers the timeline: the solver has no value, and the
  comparison with 0.9 raises \<open>TypeError\<close>.
\<close>

lemma candidates_lopsided:
  "set_of_possible_unitary_alignements lopsided attract =
     Inr [mk_ua lopsided attract [(0, Some 10), (1, Some 20)]]"
  by (simp add: candidates_eq set_of_possible_tuples_def set_of_possible_segments_def
      lopsided_def attract_def disorder_of_two_slots bound_def pair_cost_def is_gap_def
      len_continuum_def)

lemma lopsided_no_cover:
  "\<not> exact_partition lopsided (chosen [mk_ua lopsided attract [(0, Some 10), (1, Some 20)]] y)"
proof (cases y)
  case Nil
  then show ?thesis
    by (simp add: exact_partition_def timeline_pairs_def lopsided_def ref_count_def)
next
  case (Cons b y')
  then show ?thesis
    by (simp add: exact_partition_def timeline_pairs_def lopsided_def ref_count_def mk_ua_def)
qed

lemma absent_value_raises_TypeError:
  "get_unitary_alignements_best lopsided attract = Inl TypeError"
proof -
  let ?cands = "[mk_ua lopsided attract [(0, Some 10), (1, Some 20)]]"
  from candidates_numbers [OF candidates_lopsided] obtain rs
    where rs: "map disorder_of ?cands = map Val rs"
    by blast
  then have len: "length rs = length ?cands"
    by (metis length_map)
  have "solve (map Val rs) (constraints_matrix lopsided ?cands) = None"
    unfolding solve_None len feasible_exact_partition using lopsided_no_cover by blast
  then show ?thesis
    by (simp add: get_unitary_alignements_best_eq [OF candidates_lopsided rs])
qed

end
